theory Spec2Isabelle
  imports Main "HOL-Library.Monad_Syntax"
begin

section \<open>The object cache of proxy.c\<close>

text \<open>
  The cache of \<^verbatim>\<open>proxy.c\<close> is an intrusive doubly linked list of heap-allocated
  \<^verbatim>\<open>cache_entry_t\<close> nodes, reached from the globals \<^verbatim>\<open>cache_head\<close>,
  \<^verbatim>\<open>cache_tail\<close> and counted by \<^verbatim>\<open>cache_bytes\<close>.  The model keeps the pointers:
  a node lives at an address of an explicit store, \<^verbatim>\<open>NULL\<close> is \<open>None\<close>, and every
  function is the C function statement by statement.  A result \<open>None\<close> of a cache
  function means that the C code would dereference or free a pointer that is not
  allocated, read past the end of a buffer, or loop forever.

  The mutex \<^verbatim>\<open>cache_mutex\<close> makes \<^verbatim>\<open>cache_get_copy\<close> and \<^verbatim>\<open>cache_insert\<close>
  atomic with respect to each other; the model is therefore sequential.
  The wrappers \<^verbatim>\<open>Malloc\<close> and \<^verbatim>\<open>Free\<close> of csapp.h end the process when the
  allocation fails, so an allocation that returns always returns fresh memory.
\<close>

definition MAX_CACHE_SIZE :: int where
  "MAX_CACHE_SIZE = 1049000"

definition MAX_OBJECT_SIZE :: int where
  "MAX_OBJECT_SIZE = 102400"

type_synonym addr = nat

text \<open>
  \<^verbatim>\<open>struct cache_entry\<close>.  The field \<^verbatim>\<open>key\<close> is a private, never modified copy of a
  C string and is kept by value; \<^verbatim>\<open>data\<close> is the address of the payload buffer;
  \<^verbatim>\<open>size\<close> and \<^verbatim>\<open>next\<close> are renamed because the plain names are taken.
\<close>

record cache_entry =
  key :: string
  data :: addr
  size_e :: int
  prev :: "addr option"
  next_e :: "addr option"

text \<open>
  The memory the cache works on: the allocated \<^verbatim>\<open>cache_entry_t\<close> nodes, the allocated
  byte buffers, the three globals, and the allocator's next fresh address.
\<close>

record cache_state =
  entries :: "addr \<Rightarrow> cache_entry option"
  bufs :: "addr \<Rightarrow> string option"
  cache_head :: "addr option"
  cache_tail :: "addr option"
  cache_bytes :: int
  brk :: addr

definition cache_init :: cache_state where
  "cache_init = \<lparr>entries = (\<lambda>_. None), bufs = (\<lambda>_. None), cache_head = None,
     cache_tail = None, cache_bytes = 0, brk = 0\<rparr>"

text \<open>A write through a node pointer: \<^verbatim>\<open>p->field = v\<close> needs \<open>p\<close> allocated.\<close>

definition upd_entry :: "cache_state \<Rightarrow> addr \<Rightarrow> (cache_entry \<Rightarrow> cache_entry) \<Rightarrow> cache_state option" where
  "upd_entry s a f =
     (case entries s a of None \<Rightarrow> None
      | Some e \<Rightarrow> Some (s\<lparr>entries := (entries s)(a \<mapsto> f e)\<rparr>))"

text \<open>\<^verbatim>\<open>Free\<close> of a buffer and of a node; freeing what is not allocated is an error.\<close>

definition free_buf :: "cache_state \<Rightarrow> addr \<Rightarrow> cache_state option" where
  "free_buf s d =
     (case bufs s d of None \<Rightarrow> None
      | Some _ \<Rightarrow> Some (s\<lparr>bufs := (bufs s)(d := None)\<rparr>))"

definition free_entry :: "cache_state \<Rightarrow> addr \<Rightarrow> cache_state option" where
  "free_entry s a =
     (case entries s a of None \<Rightarrow> None
      | Some _ \<Rightarrow> Some (s\<lparr>entries := (entries s)(a := None)\<rparr>))"

text \<open>
  \<^verbatim>\<open>Malloc\<close> returns a block that is not allocated when the call is made.  Which
  one is the C library's choice; here it is the next address that was never handed
  out.  The library may hand out again a block that was freed, so a new block is
  only ever said to be unallocated in the state in which \<^verbatim>\<open>Malloc\<close> is called,
  never in an earlier one.
\<close>

definition malloc :: "cache_state \<Rightarrow> addr \<times> cache_state" where
  "malloc s = (brk s, s\<lparr>brk := Suc (brk s)\<rparr>)"

text \<open>\<^verbatim>\<open>memcpy(dst, src, n)\<close> reads the first \<open>n\<close> bytes of the source buffer.\<close>

definition memcpy :: "string \<Rightarrow> int \<Rightarrow> string option" where
  "memcpy src n = (if 0 \<le> n \<and> n \<le> int (length src) then Some (take (nat n) src) else None)"

definition cache_move_to_front :: "cache_state \<Rightarrow> addr option \<Rightarrow> cache_state option" where
  "cache_move_to_front s entry =
     (case entry of
        None \<Rightarrow> Some s
      | Some a \<Rightarrow>
          if entry = cache_head s then Some s
          else do {
            e \<leftarrow> entries s a;
            s1 \<leftarrow> (case prev e of
                     Some p \<Rightarrow> upd_entry s p (\<lambda>x. x\<lparr>next_e := next_e e\<rparr>)
                   | None \<Rightarrow> Some s);
            e1 \<leftarrow> entries s1 a;
            s2 \<leftarrow> (case next_e e1 of
                     Some n \<Rightarrow> upd_entry s1 n (\<lambda>x. x\<lparr>prev := prev e1\<rparr>)
                   | None \<Rightarrow> Some s1);
            e2 \<leftarrow> entries s2 a;
            let s3 = (if entry = cache_tail s2 then s2\<lparr>cache_tail := prev e2\<rparr> else s2);
            s4 \<leftarrow> upd_entry s3 a (\<lambda>x. x\<lparr>prev := None\<rparr>);
            s5 \<leftarrow> upd_entry s4 a (\<lambda>x. x\<lparr>next_e := cache_head s4\<rparr>);
            s6 \<leftarrow> (case cache_head s5 of
                     Some h \<Rightarrow> upd_entry s5 h (\<lambda>x. x\<lparr>prev := entry\<rparr>)
                   | None \<Rightarrow> Some s5);
            let s7 = s6\<lparr>cache_head := entry\<rparr>;
            Some (if cache_tail s7 = None then s7\<lparr>cache_tail := entry\<rparr> else s7)
          })"

definition cache_remove_entry :: "cache_state \<Rightarrow> addr option \<Rightarrow> cache_state option" where
  "cache_remove_entry s entry =
     (case entry of
        None \<Rightarrow> Some s
      | Some a \<Rightarrow> do {
          e \<leftarrow> entries s a;
          s1 \<leftarrow> (case prev e of
                   Some p \<Rightarrow> upd_entry s p (\<lambda>x. x\<lparr>next_e := next_e e\<rparr>)
                 | None \<Rightarrow> Some (s\<lparr>cache_head := next_e e\<rparr>));
          e1 \<leftarrow> entries s1 a;
          s2 \<leftarrow> (case next_e e1 of
                   Some n \<Rightarrow> upd_entry s1 n (\<lambda>x. x\<lparr>prev := prev e1\<rparr>)
                 | None \<Rightarrow> Some (s1\<lparr>cache_tail := prev e1\<rparr>));
          e2 \<leftarrow> entries s2 a;
          let s3 = s2\<lparr>cache_bytes := cache_bytes s2 - size_e e2\<rparr>;
          s4 \<leftarrow> free_buf s3 (data e2);
          free_entry s4 a
        })"

partial_function (option) cache_evict_until_fit :: "cache_state \<Rightarrow> int \<Rightarrow> cache_state option" where
  "cache_evict_until_fit s needed =
     (if cache_tail s \<noteq> None \<and> cache_bytes s + needed > MAX_CACHE_SIZE
      then do {
        s' \<leftarrow> cache_remove_entry s (cache_tail s);
        cache_evict_until_fit s' needed
      }
      else Some s)"

text \<open>
  The scan \<^verbatim>\<open>cur = cache_head; while (cur) { if (!strcmp(cur->key, key)) ...; cur = cur->next; }\<close>
  that opens both \<^verbatim>\<open>cache_get_copy\<close> and \<^verbatim>\<open>cache_insert\<close>: the node at which the
  comparison succeeds, or \<^verbatim>\<open>NULL\<close> when the scan falls off the list.
\<close>

partial_function (option) cache_find :: "cache_state \<Rightarrow> addr option \<Rightarrow> string \<Rightarrow> addr option option" where
  "cache_find s cur k =
     (case cur of
        None \<Rightarrow> Some None
      | Some a \<Rightarrow> do {
          e \<leftarrow> entries s a;
          if key e = k then Some cur else cache_find s (next_e e) k
        })"

text \<open>
  \<^verbatim>\<open>cache_get_copy\<close> returns its \<^verbatim>\<open>int\<close> result with the two out-parameters
  \<^verbatim>\<open>*out_data\<close> and \<^verbatim>\<open>*out_size\<close>, and the memory after the call.
\<close>

definition cache_get_copy :: "cache_state \<Rightarrow> string \<Rightarrow> (int \<times> addr option \<times> int \<times> cache_state) option" where
  "cache_get_copy s k = do {
     found \<leftarrow> cache_find s (cache_head s) k;
     (case found of
        Some cur \<Rightarrow> do {
          e \<leftarrow> entries s cur;
          let (copy, s1) = malloc s;
          src \<leftarrow> bufs s1 (data e);
          bytes \<leftarrow> memcpy src (size_e e);
          let s2 = s1\<lparr>bufs := (bufs s1)(copy \<mapsto> bytes)\<rparr>;
          s3 \<leftarrow> cache_move_to_front s2 found;
          Some (1, Some copy, size_e e, s3)
        }
      | None \<Rightarrow> Some (0, None, 0, s))
   }"

text \<open>
  \<^verbatim>\<open>cache_insert(key, data, size)\<close>; the argument \<open>buf\<close> is the content of the
  caller's buffer that \<^verbatim>\<open>data\<close> points to.
\<close>

definition cache_insert :: "cache_state \<Rightarrow> string \<Rightarrow> string \<Rightarrow> int \<Rightarrow> cache_state option" where
  "cache_insert s k buf n =
     (if n \<le> 0 \<or> n > MAX_OBJECT_SIZE then Some s
      else do {
        found \<leftarrow> cache_find s (cache_head s) k;
        s1 \<leftarrow> (case found of Some cur \<Rightarrow> cache_remove_entry s found | None \<Rightarrow> Some s);
        s2 \<leftarrow> cache_evict_until_fit s1 n;
        if n > MAX_CACHE_SIZE then Some s2
        else do {
          let (entry, s3) = malloc s2;
          let (d, s4) = malloc s3;
          bytes \<leftarrow> memcpy buf n;
          let s5 = s4\<lparr>bufs := (bufs s4)(d \<mapsto> bytes)\<rparr>;
          let s6 = s5\<lparr>entries := (entries s5)(entry \<mapsto>
                     \<lparr>key = k, data = d, size_e = n, prev = None, next_e = cache_head s5\<rparr>)\<rparr>;
          s7 \<leftarrow> (case cache_head s6 of
                   Some h \<Rightarrow> upd_entry s6 h (\<lambda>x. x\<lparr>prev := Some entry\<rparr>)
                 | None \<Rightarrow> Some s6);
          let s8 = s7\<lparr>cache_head := Some entry\<rparr>;
          let s9 = (if cache_tail s8 = None then s8\<lparr>cache_tail := Some entry\<rparr> else s8);
          Some (s9\<lparr>cache_bytes := cache_bytes s9 + n\<rparr>)
        }
      })"

subsection \<open>Observing the cache\<close>

text \<open>
  The list as a traversal from a node pointer along \<^verbatim>\<open>next\<close> sees it: the nodes in
  order, each with its address.  From \<^verbatim>\<open>cache_head\<close> this is the recency order,
  most recently used first.
\<close>

partial_function (option) cache_walk :: "cache_state \<Rightarrow> addr option \<Rightarrow> (addr \<times> cache_entry) list option" where
  "cache_walk s cur =
     (case cur of
        None \<Rightarrow> Some []
      | Some a \<Rightarrow> do {
          e \<leftarrow> entries s a;
          rest \<leftarrow> cache_walk s (next_e e);
          Some ((a, e) # rest)
        })"

text \<open>
  What the cache holds, most recently used first: key, recorded size, and the payload
  bytes found in the buffer the node points to.
\<close>

definition cache_contents :: "cache_state \<Rightarrow> (string \<times> int \<times> string option) list option" where
  "cache_contents s =
     map_option (map (\<lambda>(a, e). (key e, size_e e, bufs s (data e)))) (cache_walk s (cache_head s))"

text \<open>
  The two operations the cache offers to the request handler, and a run of a sequence of
  them.  \<open>Insert k buf n\<close> is the call \<^verbatim>\<open>cache_insert(k, buf, n)\<close>; the caller owns
  a buffer of at least \<open>n\<close> bytes when \<open>op_ok\<close> holds.
\<close>

datatype cache_op = Lookup string | Insert string string int

fun run_op :: "cache_state \<Rightarrow> cache_op \<Rightarrow> cache_state option" where
  "run_op s (Lookup k) = map_option (\<lambda>(r, out_data, out_size, s'). s') (cache_get_copy s k)"
| "run_op s (Insert k buf n) = cache_insert s k buf n"

fun run_ops :: "cache_state \<Rightarrow> cache_op list \<Rightarrow> cache_state option" where
  "run_ops s [] = Some s"
| "run_ops s (x # xs) = (case run_op s x of None \<Rightarrow> None | Some s' \<Rightarrow> run_ops s' xs)"

fun op_ok :: "cache_op \<Rightarrow> bool" where
  "op_ok (Lookup k) = True"
| "op_ok (Insert k buf n) = (n \<le> int (length buf))"

text \<open>
  An example run that fills the cache: ten payloads of 100000 bytes under the keys
  \<^verbatim>\<open>A\<close> to \<^verbatim>\<open>J\<close>, then a lookup of \<^verbatim>\<open>A\<close>.
\<close>

definition payload100k :: string where
  "payload100k = replicate 100000 CHR ''x''"

definition fill10 :: "cache_op list" where
  "fill10 = [Insert ''A'' payload100k 100000, Insert ''B'' payload100k 100000,
     Insert ''C'' payload100k 100000, Insert ''D'' payload100k 100000,
     Insert ''E'' payload100k 100000, Insert ''F'' payload100k 100000,
     Insert ''G'' payload100k 100000, Insert ''H'' payload100k 100000,
     Insert ''I'' payload100k 100000, Insert ''J'' payload100k 100000,
     Lookup ''A'']"

section \<open>Request parsing and the request handler\<close>

text \<open>
  C strings are modelled by their characters up to the terminating NUL, as a
  \<open>string\<close>.  The constant \<^verbatim>\<open>MAXLINE\<close> comes from csapp.h, which is not part of the
  repository's sources here; every function that uses it takes it as its first
  argument.  The character classes are those of the C locale.
\<close>

definition tolower :: "char \<Rightarrow> char" where
  "tolower c = (if 65 \<le> (of_char c :: nat) \<and> (of_char c :: nat) \<le> 90 then char_of ((of_char c :: nat) + 32) else c)"

definition isspace :: "char \<Rightarrow> bool" where
  "isspace c \<longleftrightarrow> (of_char c :: nat) = 32 \<or> (9 \<le> (of_char c :: nat) \<and> (of_char c :: nat) \<le> 13)"

text \<open>
  \<^verbatim>\<open>strncasecmp(s, t, n) == 0\<close>: the first \<open>n\<close> characters agree up to case, where a
  string that ends earlier than the other differs from it.
\<close>

fun strncasecmp_eq :: "string \<Rightarrow> string \<Rightarrow> nat \<Rightarrow> bool" where
  "strncasecmp_eq s t 0 = True"
| "strncasecmp_eq [] [] (Suc n) = True"
| "strncasecmp_eq (c # s) (d # t) (Suc n) = (tolower c = tolower d \<and> strncasecmp_eq s t n)"
| "strncasecmp_eq [] (d # t) (Suc n) = False"
| "strncasecmp_eq (c # s) [] (Suc n) = False"

definition starts_with_icase :: "string \<Rightarrow> string \<Rightarrow> bool" where
  "starts_with_icase s prefix = strncasecmp_eq s prefix (length prefix)"

text \<open>\<^verbatim>\<open>strchr(s, c)\<close> as the offset of the first occurrence; \<open>None\<close> is \<^verbatim>\<open>NULL\<close>.\<close>

fun strchr :: "string \<Rightarrow> char \<Rightarrow> nat option" where
  "strchr [] c = None"
| "strchr (x # xs) c = (if x = c then Some 0 else map_option Suc (strchr xs c))"

abbreviation CRLF :: string where
  "CRLF \<equiv> [CHR 0x0D, CHR 0x0A]"

text \<open>
  \<^verbatim>\<open>parse_uri(uri, hostname, port, path)\<close> returns the three output buffers.
  \<^verbatim>\<open>strncpy(dst, src, MAXLINE - 1)\<close> followed by the write of the terminator keeps the
  first \<open>MAXLINE - 1\<close> characters.
\<close>

definition parse_uri :: "nat \<Rightarrow> string \<Rightarrow> string \<times> string \<times> string" where
  "parse_uri MAXLINE uri =
     (let p = (if starts_with_icase uri ''http://'' then drop 7 uri else uri) in
      if take 1 p = ''/'' then ('''', ''80'', take (MAXLINE - 1) p)
      else
        let (hostport, path) =
              (case strchr p CHR ''/'' of
                 Some slash \<Rightarrow> (take (min slash (MAXLINE - 1)) p, take (MAXLINE - 1) (drop slash p))
               | None \<Rightarrow> (take (MAXLINE - 1) p, ''/''))
        in (case strchr hostport CHR '':'' of
              Some colon \<Rightarrow>
                (take (min colon (MAXLINE - 1)) hostport,
                 take (MAXLINE - 1) (drop (Suc colon) hostport), path)
            | None \<Rightarrow> (take (MAXLINE - 1) hostport, ''80'', path)))"

definition build_cache_key :: "nat \<Rightarrow> string \<Rightarrow> string \<Rightarrow> string \<Rightarrow> string" where
  "build_cache_key MAXLINE hostname port path = take (MAXLINE - 1) (hostname @ '':'' @ port @ path)"

text \<open>
  \<^verbatim>\<open>read_request_headers\<close>.  The stream \<open>rio\<close> lists the calls of \<^verbatim>\<open>Rio_readlineb\<close>
  that return a positive count, each by the C string it leaves in \<^verbatim>\<open>buf\<close>; after
  the last of them the call returns 0 or less.  The loop tests the count and
  compares the string with the blank line, nothing else: a line that begins with a
  NUL byte leaves the empty string, which matches no prefix, adds nothing to
  \<^verbatim>\<open>other_hdrs\<close>, and does not end the loop.  The result is \<^verbatim>\<open>other_hdrs\<close> and
  \<^verbatim>\<open>host_hdr\<close>, with the rest of the stream.
\<close>

fun read_request_headers_loop ::
  "nat \<Rightarrow> nat \<Rightarrow> string list \<Rightarrow> string \<times> string \<Rightarrow> (string \<times> string) \<times> string list" where
  "read_request_headers_loop other_sz host_sz [] (other_hdrs, host_hdr) = ((other_hdrs, host_hdr), [])"
| "read_request_headers_loop other_sz host_sz (buf # rio) (other_hdrs, host_hdr) =
     (if buf = CRLF then ((other_hdrs, host_hdr), rio)
      else if starts_with_icase buf ''Host:''
        then read_request_headers_loop other_sz host_sz rio (other_hdrs, take (host_sz - 1) (drop 5 buf))
      else if starts_with_icase buf ''User-Agent:''
        then read_request_headers_loop other_sz host_sz rio (other_hdrs, host_hdr)
      else if starts_with_icase buf ''Connection:''
        then read_request_headers_loop other_sz host_sz rio (other_hdrs, host_hdr)
      else if starts_with_icase buf ''Proxy-Connection:''
        then read_request_headers_loop other_sz host_sz rio (other_hdrs, host_hdr)
      else if length other_hdrs + length buf + 1 < other_sz
        then read_request_headers_loop other_sz host_sz rio (other_hdrs @ buf, host_hdr)
      else read_request_headers_loop other_sz host_sz rio (other_hdrs, host_hdr))"

definition read_request_headers :: "nat \<Rightarrow> nat \<Rightarrow> string list \<Rightarrow> (string \<times> string) \<times> string list" where
  "read_request_headers other_sz host_sz rio = read_request_headers_loop other_sz host_sz rio ('''', '''')"

text \<open>
  \<^verbatim>\<open>normalize_host_from_header(host_hdr, hostname, port)\<close> updates the pair
  \<^verbatim>\<open>(hostname, port)\<close>; an early \<^verbatim>\<open>return\<close> leaves it as it was.
\<close>

definition normalize_host_from_header :: "nat \<Rightarrow> string \<Rightarrow> string \<times> string \<Rightarrow> string \<times> string" where
  "normalize_host_from_header MAXLINE host_hdr hp =
     (if host_hdr = [] then hp
      else
        let tmp = take (MAXLINE - 1) (dropWhile isspace host_hdr);
            p = dropWhile (\<lambda>c. c = CHR '' '' \<or> c = CHR 0x09) tmp
        in if p = [] then hp
           else
             let p' = rev (dropWhile (\<lambda>c. c = CHR 0x0D \<or> c = CHR 0x0A \<or> isspace c) (rev p))
             in (case strchr p' CHR '':'' of
                   Some colon \<Rightarrow> (take (MAXLINE - 1) (take colon p'), take (MAXLINE - 1) (drop (Suc colon) p'))
                 | None \<Rightarrow> (take (MAXLINE - 1) p', snd hp)))"

definition user_agent_hdr :: string where
  "user_agent_hdr =
     ''User-Agent: Mozilla/5.0 (X11; Linux x86_64; rv:10.0.3) '' @
     ''Gecko/20120305 Firefox/10.0.3'' @ CRLF"

text \<open>
  \<^verbatim>\<open>sscanf(buf, "%s %s %s", method, uri, version)\<close> assigns the first three maximal
  runs of non-space characters; it returns 3 exactly when there are three.
\<close>

function tokens :: "string \<Rightarrow> string list" where
  "tokens s =
     (let s' = dropWhile isspace s in
      if s' = [] then []
      else takeWhile (\<lambda>c. \<not> isspace c) s' # tokens (dropWhile (\<lambda>c. \<not> isspace c) s'))"
  by pat_completeness auto
termination
proof (relation "measure length")
  show "wf (measure length)" by simp
next
  fix s s' :: string
  assume s': "s' = dropWhile isspace s" and ne: "s' \<noteq> []"
  from ne obtain a r where ar: "s' = a # r" by (cases s') auto
  have "\<not> isspace (hd s')" using s' ne hd_dropWhile[of isspace s] by simp
  then have "\<not> isspace a" using ar by simp
  then have "dropWhile (\<lambda>c. \<not> isspace c) s' = dropWhile (\<lambda>c. \<not> isspace c) r" using ar by simp
  then have "length (dropWhile (\<lambda>c. \<not> isspace c) s') < length s'"
    using ar length_dropWhile_le[of "\<lambda>c. \<not> isspace c" r] by simp
  moreover have "length s' \<le> length s" using s' by (simp add: length_dropWhile_le)
  ultimately show "(dropWhile (\<lambda>c. \<not> isspace c) s', s) \<in> measure length" by simp
qed

definition sscanf3 :: "string \<Rightarrow> (string \<times> string \<times> string) option" where
  "sscanf3 buf = (case tokens buf of m # u # v # _ \<Rightarrow> Some (m, u, v) | _ \<Rightarrow> None)"

definition strcasecmp_eq :: "string \<Rightarrow> string \<Rightarrow> bool" where
  "strcasecmp_eq s t \<longleftrightarrow> map tolower s = map tolower t"

text \<open>
  \<^verbatim>\<open>snprintf(buf + strlen(buf), cap - strlen(buf), ...)\<close> and
  \<^verbatim>\<open>strncat(buf, t, cap - strlen(buf) - 1)\<close> both append what fits below \<open>cap\<close>.
\<close>

definition append_bounded :: "nat \<Rightarrow> string \<Rightarrow> string \<Rightarrow> string" where
  "append_bounded cap s t = s @ take (cap - length s - 1) t"

text \<open>
  What a handler can change outside its own stack: the cache, the bytes written to the
  client, the upstream connections opened, and the requests written to them.
\<close>

record world =
  cache :: cache_state
  to_client :: string
  connects :: "(string \<times> string) list"
  to_server :: "string list"

definition world_init :: world where
  "world_init = \<lparr>cache = cache_init, to_client = [], connects = [], to_server = []\<rparr>"

text \<open>
  The relay loop over the chunks \<^verbatim>\<open>Rio_readnb\<close> returns, on the triple of the bytes
  written to the client, \<^verbatim>\<open>objbuf\<close> (its first \<^verbatim>\<open>objsize\<close> bytes) and
  \<^verbatim>\<open>cacheable\<close>.  A chunk is the \<open>n\<close> bytes of one call, so \<open>n > 0\<close> is that the
  chunk is not empty.
\<close>

fun relay :: "string list \<Rightarrow> string \<times> string \<times> bool \<Rightarrow> string \<times> string \<times> bool" where
  "relay [] st = st"
| "relay (chunk # rio) (out, objbuf, cacheable) =
     (if chunk = [] then (out, objbuf, cacheable)
      else relay rio
        (out @ chunk,
         if cacheable \<and> int (length objbuf) + int (length chunk) \<le> MAX_OBJECT_SIZE then objbuf @ chunk else objbuf,
         cacheable \<and> int (length objbuf) + int (length chunk) \<le> MAX_OBJECT_SIZE))"

text \<open>
  The resolution of the request target inside \<^verbatim>\<open>forward_request\<close>: the call of
  \<^verbatim>\<open>parse_uri\<close>, the fallback to the captured Host header when the target gave no
  host name, and the rejection when there is still none.  \<open>None\<close> is the early
  \<^verbatim>\<open>return\<close>.
\<close>

definition resolve_target :: "nat \<Rightarrow> string \<Rightarrow> string \<Rightarrow> (string \<times> string \<times> string) option" where
  "resolve_target MAXLINE uri host_hdr =
     (let (hostname0, port0, path) = parse_uri MAXLINE uri;
          (hostname, port) =
            (if hostname0 = [] then normalize_host_from_header MAXLINE host_hdr (hostname0, port0)
             else (hostname0, port0))
      in if hostname = [] then None else Some (hostname, port, path))"

text \<open>
  \<^verbatim>\<open>forward_request(clientfd)\<close>.  \<open>client_rio\<close> is what the client sends, as the
  stream of \<^verbatim>\<open>read_request_headers\<close>: when it is empty the first call of
  \<^verbatim>\<open>Rio_readlineb\<close> returns 0 or less, otherwise its first element is the request
  line.  \<open>net hostname port\<close> is what \<^verbatim>\<open>Open_clientfd\<close> finds there: \<open>None\<close> when
  the connection fails, otherwise the chunks the server's response arrives in.
  The result is the world after the handler has returned; \<open>None\<close> only when a cache
  function fails.
\<close>

definition forward_request ::
  "nat \<Rightarrow> (string \<Rightarrow> string \<Rightarrow> string list option) \<Rightarrow> world \<Rightarrow> string list \<Rightarrow> world option" where
  "forward_request MAXLINE net w client_rio =
     (case client_rio of
        [] \<Rightarrow> Some w
      | buf # rio \<Rightarrow>
          (case sscanf3 buf of
            None \<Rightarrow> Some w
          | Some (method, uri, version) \<Rightarrow>
              if \<not> strcasecmp_eq method ''GET'' then Some w
              else
                let ((other_hdrs, host_hdr), rio') = read_request_headers 32768 MAXLINE rio in
                (case resolve_target MAXLINE uri host_hdr of
                   None \<Rightarrow> Some w
                 | Some (hostname, port, path) \<Rightarrow>
                     let cache_key = build_cache_key MAXLINE hostname port path in
                     do {
                       (hit, cached, cached_size, c1) \<leftarrow> cache_get_copy (cache w) cache_key;
                       if hit \<noteq> 0 then do {
                         p \<leftarrow> cached;
                         bytes \<leftarrow> bufs c1 p;
                         sent \<leftarrow> memcpy bytes cached_size;
                         c2 \<leftarrow> free_buf c1 p;
                         Some (w\<lparr>cache := c2, to_client := to_client w @ sent\<rparr>)
                       }
                       else (case net hostname port of
                         None \<Rightarrow> Some (w\<lparr>cache := c1, connects := connects w @ [(hostname, port)]\<rparr>)
                       | Some server_rio \<Rightarrow>
                           let r1 = take 40959 (''GET '' @ path @ '' HTTP/1.0'' @ CRLF);
                               r2 = (if port = ''80''
                                     then append_bounded 40960 r1 (''Host: '' @ hostname @ CRLF)
                                     else append_bounded 40960 r1 (''Host: '' @ hostname @ '':'' @ port @ CRLF));
                               r3 = append_bounded 40960 r2 user_agent_hdr;
                               r4 = append_bounded 40960 r3
                                      (''Connection: close'' @ CRLF @ ''Proxy-Connection: close'' @ CRLF);
                               r5 = (if other_hdrs \<noteq> [] then append_bounded 40960 r4 other_hdrs else r4);
                               request_hdrs = append_bounded 40960 r5 CRLF;
                               (out, objbuf, cacheable) = relay server_rio (to_client w, [], True)
                           in do {
                             c2 \<leftarrow> (if cacheable \<and> length objbuf > 0
                                    then cache_insert c1 cache_key objbuf (int (length objbuf))
                                    else Some c1);
                             Some (w\<lparr>cache := c2, to_client := out,
                                     connects := connects w @ [(hostname, port)],
                                     to_server := to_server w @ [request_hdrs]\<rparr>)
                           })
                     })))"

section \<open>The claims' own notions\<close>

text \<open>
  The specification's words for the splitting of \<open>host[:port]\<close>: at the last colon.
  It is compared with what \<^verbatim>\<open>parse_uri\<close> computes.
\<close>

definition spec_last_colon_split :: "string \<Rightarrow> string \<times> string" where
  "spec_last_colon_split hostport =
     (let r = rev hostport; port = takeWhile (\<lambda>c. c \<noteq> CHR '':'') r
      in (rev (drop (Suc (length port)) r), rev port))"







text \<open>The part of \<^verbatim>\<open>parse_uri\<close> after the scheme has been skipped, for the proofs.\<close>

definition parse_uri_body :: "nat \<Rightarrow> string \<Rightarrow> string \<times> string \<times> string" where
  "parse_uri_body MAXLINE p =
     (if take 1 p = ''/'' then ('''', ''80'', take (MAXLINE - 1) p)
      else
        let (hostport, path) =
              (case strchr p CHR ''/'' of
                 Some slash \<Rightarrow> (take (min slash (MAXLINE - 1)) p, take (MAXLINE - 1) (drop slash p))
               | None \<Rightarrow> (take (MAXLINE - 1) p, ''/''))
        in (case strchr hostport CHR '':'' of
              Some colon \<Rightarrow>
                (take (min colon (MAXLINE - 1)) hostport,
                 take (MAXLINE - 1) (drop (Suc colon) hostport), path)
            | None \<Rightarrow> (take (MAXLINE - 1) hostport, ''80'', path)))"

section \<open>The list the pointers represent\<close>

text \<open>
  The proofs relate the memory to the list of items it represents: an item is a node
  address with the key, the address of the payload buffer and the payload.  The
  pointers \<^verbatim>\<open>prev\<close> and \<^verbatim>\<open>next\<close> of a node are determined by the position of its address
  in the list of addresses.
\<close>

primrec succ_in :: "'a list \<Rightarrow> 'a \<Rightarrow> 'a option" where
  "succ_in [] a = None"
| "succ_in (x # xs) a = (if a = x then (case xs of [] \<Rightarrow> None | y # _ \<Rightarrow> Some y) else succ_in xs a)"

primrec pred_in :: "'a list \<Rightarrow> 'a \<Rightarrow> 'a option" where
  "pred_in [] a = None"
| "pred_in (x # xs) a = (case xs of [] \<Rightarrow> None | y # _ \<Rightarrow> if a = y then Some x else pred_in xs a)"

definition hd_opt :: "'a list \<Rightarrow> 'a option" where
  "hd_opt xs = (case xs of [] \<Rightarrow> None | x # _ \<Rightarrow> Some x)"

definition last_opt :: "'a list \<Rightarrow> 'a option" where
  "last_opt xs = (if xs = [] then None else Some (last xs))"

record item =
  i_addr :: addr
  i_key :: string
  i_data :: addr
  i_bytes :: string

definition node_of :: "addr list \<Rightarrow> item \<Rightarrow> cache_entry" where
  "node_of xs j = \<lparr>key = i_key j, data = i_data j, size_e = int (length (i_bytes j)),
     prev = pred_in xs (i_addr j), next_e = succ_in xs (i_addr j)\<rparr>"

definition item_at :: "item list \<Rightarrow> addr \<Rightarrow> item option" where
  "item_at is b = find (\<lambda>j. i_addr j = b) is"

definition total_size :: "item list \<Rightarrow> int" where
  "total_size is = sum_list (map (\<lambda>j. int (length (i_bytes j))) is)"

definition cache_abs :: "cache_state \<Rightarrow> item list \<Rightarrow> bool" where
  "cache_abs s is \<longleftrightarrow>
     distinct (map i_addr is) \<and> distinct (map i_data is) \<and> distinct (map i_key is) \<and>
     cache_head s = hd_opt (map i_addr is) \<and>
     cache_tail s = last_opt (map i_addr is) \<and>
     (\<forall>b. entries s b = map_option (node_of (map i_addr is)) (item_at is b)) \<and>
     (\<forall>j \<in> set is. bufs s (i_data j) = Some (i_bytes j) \<and> i_addr j < brk s \<and> i_data j < brk s \<and>
                   i_bytes j \<noteq> [] \<and> int (length (i_bytes j)) \<le> MAX_OBJECT_SIZE) \<and>
     (\<forall>a. brk s \<le> a \<longrightarrow> bufs s a = None) \<and>
     cache_bytes s = total_size is \<and>
     cache_bytes s \<le> MAX_CACHE_SIZE"

function abs_evict :: "item list \<Rightarrow> int \<Rightarrow> item list" where
  "abs_evict is n = (if is \<noteq> [] \<and> total_size is + n > MAX_CACHE_SIZE then abs_evict (butlast is) n else is)"
  by pat_completeness auto
termination
  by (relation "measure (\<lambda>(is, n). length is)") auto

definition abs_remove_key :: "string \<Rightarrow> item list \<Rightarrow> item list" where
  "abs_remove_key k is = (case find (\<lambda>j. i_key j = k) is of None \<Rightarrow> is | Some j \<Rightarrow> remove1 j is)"

definition abs_insert :: "addr \<Rightarrow> string \<Rightarrow> string \<Rightarrow> item list \<Rightarrow> item list" where
  "abs_insert a k p is =
     \<lparr>i_addr = a, i_key = k, i_data = Suc a, i_bytes = p\<rparr> # abs_evict (abs_remove_key k is) (int (length p))"

definition abs_touch :: "string \<Rightarrow> item list \<Rightarrow> item list" where
  "abs_touch k is = (case find (\<lambda>j. i_key j = k) is of None \<Rightarrow> is | Some j \<Rightarrow> j # remove1 j is)"

definition abs_op :: "addr \<Rightarrow> cache_op \<Rightarrow> item list \<Rightarrow> item list" where
  "abs_op a x is =
     (case x of
        Lookup k \<Rightarrow> abs_touch k is
      | Insert k buf n \<Rightarrow>
          if n \<le> 0 \<or> n > MAX_OBJECT_SIZE then is else abs_insert a k (take (nat n) buf) is)"

definition item_view :: "item \<Rightarrow> string \<times> int \<times> string option" where
  "item_view j = (i_key j, int (length (i_bytes j)), Some (i_bytes j))"

text \<open>The allocator's next address and the represented list after a run.\<close>

fun abs_brk :: "addr \<Rightarrow> cache_op \<Rightarrow> item list \<Rightarrow> addr" where
  "abs_brk a (Lookup k) is = (if find (\<lambda>j. i_key j = k) is = None then a else Suc a)"
| "abs_brk a (Insert k buf n) is = (if n \<le> 0 \<or> n > MAX_OBJECT_SIZE then a else Suc (Suc a))"

fun abs_run :: "addr \<Rightarrow> item list \<Rightarrow> cache_op list \<Rightarrow> addr \<times> item list" where
  "abs_run a is [] = (a, is)"
| "abs_run a is (x # xs) = abs_run (abs_brk a x is) (abs_op a x is) xs"

definition item100k :: "addr \<Rightarrow> string \<Rightarrow> item" where
  "item100k a k = \<lparr>i_addr = a, i_key = k, i_data = Suc a, i_bytes = payload100k\<rparr>"

section \<open>Lists: neighbours of an element\<close>

lemma succ_in_notin: "a \<notin> set xs \<Longrightarrow> succ_in xs a = None"
  by (induction xs) auto

lemma pred_in_notin: "a \<notin> set xs \<Longrightarrow> pred_in xs a = None"
  by (induction xs) (auto split: list.splits)

lemma succ_in_mem: "succ_in xs a = Some b \<Longrightarrow> a \<in> set xs \<and> b \<in> set xs"
  by (induction xs) (auto split: if_splits list.splits)

lemma pred_in_mem: "pred_in xs a = Some b \<Longrightarrow> a \<in> set xs \<and> b \<in> set xs"
  by (induction xs) (auto split: if_splits list.splits)

lemma succ_in_neq: "distinct xs \<Longrightarrow> succ_in xs a \<noteq> Some a"
  by (induction xs) (auto split: list.splits dest: succ_in_mem)

lemma pred_in_neq: "distinct xs \<Longrightarrow> pred_in xs a \<noteq> Some a"
  by (induction xs) (auto split: list.splits dest: pred_in_mem)

lemma pred_in_hd: "distinct (x # xs) \<Longrightarrow> pred_in (x # xs) x = None"
proof (cases xs)
  case Nil
  then show ?thesis by simp
next
  case (Cons y ys)
  assume d: "distinct (x # xs)"
  have "pred_in xs x = None" using d by (simp add: pred_in_notin)
  then show ?thesis using d Cons by auto
qed

lemma succ_pred: "distinct xs \<Longrightarrow> succ_in xs a = Some b \<longleftrightarrow> pred_in xs b = Some a"
proof (induction xs)
  case Nil
  then show ?case by simp
next
  case (Cons x xs)
  show ?case
  proof (cases xs)
    case Nil
    then show ?thesis by simp
  next
    case c: (Cons y ys)
    have 1: "pred_in xs y = None" using Cons.prems c pred_in_hd[of y ys] by simp
    have 2: "succ_in xs x = None" using Cons.prems by (simp add: succ_in_notin)
    have 3: "pred_in xs b \<noteq> Some x" using Cons.prems pred_in_mem[of xs b x] by auto
    have 4: "(succ_in xs a = Some b) = (pred_in xs b = Some a)" using Cons by simp
    show ?thesis
    proof (cases "a = x")
      case True
      then show ?thesis using 1 3 c by auto
    next
      case False
      have "b \<noteq> y" if "succ_in xs a = Some b" using that 4 1 by auto
      then show ?thesis using False 4 c 1 by auto
    qed
  qed
qed

lemma pred_in_None: "distinct xs \<Longrightarrow> a \<in> set xs \<Longrightarrow> pred_in xs a = None \<longleftrightarrow> a = hd xs"
proof (induction xs)
  case Nil
  then show ?case by simp
next
  case (Cons x xs)
  show ?case
  proof (cases xs)
    case Nil
    then show ?thesis using Cons.prems by simp
  next
    case c: (Cons y ys)
    show ?thesis
    proof (cases "a = x")
      case True
      then show ?thesis using pred_in_hd[OF Cons.prems(1)] by simp
    next
      case False
      then have "a \<in> set xs" using Cons.prems by simp
      then show ?thesis using Cons c False by auto
    qed
  qed
qed

lemma succ_in_None: "distinct xs \<Longrightarrow> a \<in> set xs \<Longrightarrow> succ_in xs a = None \<longleftrightarrow> a = last xs"
proof (induction xs)
  case Nil
  then show ?case by simp
next
  case (Cons x xs)
  show ?case
  proof (cases xs)
    case Nil
    then show ?thesis using Cons.prems by simp
  next
    case c: (Cons y ys)
    show ?thesis
    proof (cases "a = x")
      case True
      then show ?thesis using Cons.prems c by auto
    next
      case False
      then have "a \<in> set xs" using Cons.prems by simp
      then show ?thesis using Cons c False by auto
    qed
  qed
qed

lemma succ_in_append: "distinct (ys @ a # zs) \<Longrightarrow>
   succ_in (ys @ a # zs) a = (case zs of [] \<Rightarrow> None | z # _ \<Rightarrow> Some z)"
  by (induction ys) auto

lemma pred_in_append: "distinct (ys @ a # zs) \<Longrightarrow>
   pred_in (ys @ a # zs) a = (if ys = [] then None else Some (last ys))"
proof (induction ys)
  case Nil
  then show ?case using pred_in_hd[of a zs] by simp
next
  case (Cons y ys)
  then show ?case by (cases ys) auto
qed

lemma hd_opt_simps [simp]: "hd_opt [] = None" "hd_opt (x # xs) = Some x"
  by (simp_all add: hd_opt_def)

lemma last_opt_simps [simp]: "last_opt [] = None" "last_opt (x # xs) = (if xs = [] then Some x else last_opt xs)"
  by (simp_all add: last_opt_def)

lemma succ_in_Cons_hd: "succ_in (x # xs) a = (if a = x then hd_opt xs else succ_in xs a)"
  by (simp add: hd_opt_def)

lemma hd_opt_remove1: "hd_opt (remove1 a xs) = (if hd_opt xs = Some a then succ_in xs a else hd_opt xs)"
  by (cases xs) (auto simp: hd_opt_def)

lemma succ_in_remove1: "distinct xs \<Longrightarrow> b \<noteq> a \<Longrightarrow>
  succ_in (remove1 a xs) b = (if succ_in xs b = Some a then succ_in xs a else succ_in xs b)"
proof (induction xs)
  case Nil
  then show ?case by simp
next
  case (Cons x xs)
  show ?case
  proof (cases "a = x")
    case True
    have "succ_in xs b \<noteq> Some x" using Cons.prems succ_in_mem[of xs b x] by auto
    moreover have "hd_opt xs \<noteq> Some x" using Cons.prems by (cases xs) auto
    ultimately show ?thesis using True Cons.prems by (auto simp: succ_in_Cons_hd simp del: succ_in.simps(2))
  next
    case False
    have "succ_in xs x = None" using Cons.prems by (simp add: succ_in_notin)
    then show ?thesis using False Cons
      by (auto simp: succ_in_Cons_hd hd_opt_remove1 simp del: succ_in.simps(2))
  qed
qed

lemma last_opt_remove1: "distinct xs \<Longrightarrow> last_opt (remove1 a xs) = (if last_opt xs = Some a then pred_in xs a else last_opt xs)"
proof (induction xs)
  case Nil
  then show ?case by simp
next
  case (Cons x xs)
  show ?case
  proof (cases xs)
    case Nil
    then show ?thesis by simp
  next
    case c: (Cons y ys)
    show ?thesis
    proof (cases "a = x")
      case True
      have "last_opt xs \<noteq> Some x" using Cons.prems c by (auto simp: last_opt_def)
      then show ?thesis using True c pred_in_hd[OF Cons.prems] by simp
    next
      case False
      note ax = this
      show ?thesis
      proof (cases "remove1 a xs = []")
        case True
        then have "xs = [a]" using c by (auto split: if_splits)
        then show ?thesis using ax by simp
      next
        case False
        have "pred_in xs a \<noteq> None" if "last_opt xs = Some a" "a \<noteq> y"
          using that Cons.prems c pred_in_None[of xs a] by (auto simp: last_opt_def split: if_splits)
        then show ?thesis using ax False Cons c by (auto simp: last_opt_def)
      qed
    qed
  qed
qed

lemma pred_in_remove1: "distinct xs \<Longrightarrow> b \<noteq> a \<Longrightarrow>
  pred_in (remove1 a xs) b = (if pred_in xs b = Some a then pred_in xs a else pred_in xs b)"
proof (induction xs)
  case Nil
  then show ?case by simp
next
  case (Cons x xs)
  show ?case
  proof (cases xs)
    case Nil
    then show ?thesis by simp
  next
    case c: (Cons y ys)
    have hx: "pred_in (x # xs) x = None" using pred_in_hd[OF Cons.prems(1)] .
    have hy: "pred_in xs y = None" using pred_in_hd[of y ys] Cons.prems(1) c by simp
    have IH: "pred_in (remove1 a xs) b = (if pred_in xs b = Some a then pred_in xs a else pred_in xs b)"
      using Cons by simp
    have nx: "pred_in xs b \<noteq> Some x" using Cons.prems pred_in_mem[of xs b x] by auto
    show ?thesis
    proof (cases "a = x")
      case True
      then show ?thesis using c Cons.prems hx hy nx by auto
    next
      case False
      note ax = this
      show ?thesis
      proof (cases "a = y")
        case True
        have ny: "pred_in ys b \<noteq> Some y" using Cons.prems c pred_in_mem[of ys b y] by auto
        show ?thesis using True c ax Cons.prems ny by (cases ys) auto
      next
        case False
        then show ?thesis using ax c IH hy by (auto)
      qed
    qed
  qed
qed

section \<open>The pointer operations, executed\<close>

text \<open>
  What \<^verbatim>\<open>cache_remove_entry\<close> and \<^verbatim>\<open>cache_move_to_front\<close> leave in memory when
  the pointers they follow are allocated.
\<close>

lemma upd_entry_Some: "entries s a = Some e \<Longrightarrow> upd_entry s a f = Some (s\<lparr>entries := (entries s)(a \<mapsto> f e)\<rparr>)"
  by (simp add: upd_entry_def)

lemma cache_remove_entry_exec:
  assumes a: "entries s a = Some e"
    and p: "\<And>p. prev e = Some p \<Longrightarrow> p \<noteq> a \<and> (\<exists>ep. entries s p = Some ep)"
    and n: "\<And>n. next_e e = Some n \<Longrightarrow> n \<noteq> a \<and> (\<exists>en. entries s n = Some en)"
    and b: "bufs s (data e) = Some bs"
  shows "cache_remove_entry s (Some a) = Some (s\<lparr>
      entries := (\<lambda>b. if b = a then None
         else map_option ((if next_e e = Some b then prev_update (\<lambda>_. prev e) else id) \<circ>
                          (if prev e = Some b then next_e_update (\<lambda>_. next_e e) else id)) (entries s b)),
      bufs := (bufs s)(data e := None),
      cache_head := (if prev e = None then next_e e else cache_head s),
      cache_tail := (if next_e e = None then prev e else cache_tail s),
      cache_bytes := cache_bytes s - size_e e\<rparr>)"
proof (cases "prev e")
  case None
  note pe = this
  show ?thesis
  proof (cases "next_e e")
    case None
    show ?thesis using a b pe None
      by (auto simp: cache_remove_entry_def free_buf_def free_entry_def fun_eq_iff option.map_id0
          intro!: cache_state.equality)
  next
    case (Some nn)
    obtain en where en: "entries s nn = Some en" "nn \<noteq> a" using n[OF Some] by auto
    show ?thesis using a b pe Some en
      by (auto simp: cache_remove_entry_def free_buf_def free_entry_def upd_entry_def fun_eq_iff option.map_id
          intro!: cache_state.equality)
  qed
next
  case (Some pp)
  note pe = this
  obtain ep where ep: "entries s pp = Some ep" "pp \<noteq> a" using p[OF Some] by auto
  show ?thesis
  proof (cases "next_e e")
    case None
    show ?thesis using a b pe None ep
      by (auto simp: cache_remove_entry_def free_buf_def free_entry_def upd_entry_def fun_eq_iff option.map_id
          intro!: cache_state.equality)
  next
    case (Some nn)
    obtain en where en: "entries s nn = Some en" "nn \<noteq> a" using n[OF Some] by auto
    show ?thesis using a b pe Some en ep
      by (auto simp: cache_remove_entry_def free_buf_def free_entry_def upd_entry_def fun_eq_iff option.map_id
          intro!: cache_state.equality)
  qed
qed

section \<open>The operations on the represented list\<close>

text \<open>
  Each C function, run on a memory that represents a list of items, succeeds and
  leaves a memory that represents the list the corresponding list operation yields.
\<close>

lemma item_at_mem: "distinct (map i_addr is) \<Longrightarrow> j \<in> set is \<Longrightarrow> item_at is (i_addr j) = Some j"
  unfolding item_at_def by (induction "is") auto

lemma item_at_Some: "item_at is b = Some j \<Longrightarrow> j \<in> set is \<and> i_addr j = b"
  unfolding item_at_def by (induction "is") (auto split: if_splits)

lemma item_at_None: "item_at is b = None \<longleftrightarrow> b \<notin> set (map i_addr is)"
  unfolding item_at_def by (induction "is") auto

lemma item_at_remove1: "distinct (map i_addr is) \<Longrightarrow> i \<in> set is \<Longrightarrow>
   item_at (remove1 i is) b = (if b = i_addr i then None else item_at is b)"
  unfolding item_at_def by (induction "is") (auto simp: find_None_iff image_iff)

lemma map_remove1_inj: "distinct (map f is) \<Longrightarrow> i \<in> set is \<Longrightarrow> map f (remove1 i is) = remove1 (f i) (map f is)"
  by (induction "is") (auto simp: image_iff)

lemma total_size_remove1: "i \<in> set is \<Longrightarrow> total_size (remove1 i is) = total_size is - int (length (i_bytes i))"
  unfolding total_size_def by (induction "is") auto

lemma total_size_nonneg: "0 \<le> total_size is"
  unfolding total_size_def by (induction "is") auto

lemma entries_abs: "cache_abs s is \<Longrightarrow> j \<in> set is \<Longrightarrow> entries s (i_addr j) = Some (node_of (map i_addr is) j)"
  by (simp add: cache_abs_def item_at_mem)

lemma entries_abs_ex: "cache_abs s is \<Longrightarrow> b \<in> set (map i_addr is) \<Longrightarrow> \<exists>e. entries s b = Some e"
  using item_at_None[of "is" b] by (cases "item_at is b") (auto simp add: cache_abs_def)

lemma pred_in_None_hd: "distinct xs \<Longrightarrow> a \<in> set xs \<Longrightarrow> (pred_in xs a = None) = (hd_opt xs = Some a)"
  using pred_in_None[of xs a] by (cases xs) (simp_all only: hd_opt_simps list.sel option.inject, auto)

lemma succ_in_None_last: "distinct xs \<Longrightarrow> a \<in> set xs \<Longrightarrow> (succ_in xs a = None) = (last_opt xs = Some a)"
  using succ_in_None[of xs a] by (cases "xs = []") (auto simp: last_opt_def)

lemma entries_remove_abs:
  assumes d: "distinct (map i_addr is)" and i: "i \<in> set is"
    and ent: "\<forall>b. ent b = map_option (node_of (map i_addr is)) (item_at is b)"
    and ba: "b \<noteq> i_addr i"
  shows "map_option ((if succ_in (map i_addr is) (i_addr i) = Some b
                       then prev_update (\<lambda>_. pred_in (map i_addr is) (i_addr i)) else id) \<circ>
                     (if pred_in (map i_addr is) (i_addr i) = Some b
                       then next_e_update (\<lambda>_. succ_in (map i_addr is) (i_addr i)) else id)) (ent b)
         = map_option (node_of (remove1 (i_addr i) (map i_addr is))) (item_at (remove1 i is) b)"
proof (cases "item_at is b")
  case None
  then show ?thesis using item_at_remove1[OF d i, of b] ent ba by simp
next
  case (Some j)
  then have jb: "i_addr j = b" using item_at_Some by blast
  have eb: "ent b = Some (node_of (map i_addr is) j)" using ent Some by simp
  have 1: "item_at (remove1 i is) b = Some j" using item_at_remove1[OF d i, of b] ba Some by simp
  have 2: "succ_in (remove1 (i_addr i) (map i_addr is)) b =
       (if succ_in (map i_addr is) b = Some (i_addr i) then succ_in (map i_addr is) (i_addr i) else succ_in (map i_addr is) b)"
    using succ_in_remove1[OF d ba] .
  have 3: "pred_in (remove1 (i_addr i) (map i_addr is)) b =
       (if pred_in (map i_addr is) b = Some (i_addr i) then pred_in (map i_addr is) (i_addr i) else pred_in (map i_addr is) b)"
    using pred_in_remove1[OF d ba] .
  have 4: "(succ_in (map i_addr is) (i_addr i) = Some b) = (pred_in (map i_addr is) b = Some (i_addr i))"
    using succ_pred[OF d] .
  have 5: "(pred_in (map i_addr is) (i_addr i) = Some b) = (succ_in (map i_addr is) b = Some (i_addr i))"
    using succ_pred[OF d] by simp
  show ?thesis unfolding eb 1 4 5 by (simp add: node_of_def 2 3 jb)
qed

lemma bufs_remove_abs:
  assumes dd: "distinct (map i_data is)" and i: "i \<in> set is" and j: "j \<in> set (remove1 i is)"
  shows "i_data j \<noteq> i_data i"
  using assms by (induction "is") (auto simp: image_iff split: if_splits)

lemma cache_remove_entry_abs:
  assumes abs: "cache_abs s is" and i: "i \<in> set is"
  shows "\<exists>s'. cache_remove_entry s (Some (i_addr i)) = Some s' \<and> cache_abs s' (remove1 i is) \<and>
           brk s' = brk s \<and> bufs s' = (bufs s)(i_data i := None)"
proof -
  let ?xs = "map i_addr is"
  let ?a = "i_addr i"
  let ?e = "node_of ?xs i"
  have d: "distinct ?xs" using abs by (simp add: cache_abs_def)
  have a: "entries s ?a = Some ?e" using entries_abs[OF abs i] .
  have pe: "prev ?e = pred_in ?xs ?a" and ne: "next_e ?e = succ_in ?xs ?a" and de: "data ?e = i_data i"
    and se: "size_e ?e = int (length (i_bytes i))"
    by (simp_all add: node_of_def)
  have p: "p \<noteq> ?a \<and> (\<exists>ep. entries s p = Some ep)" if "prev ?e = Some p" for p
    using that pe pred_in_neq[OF d, of ?a] pred_in_mem[of ?xs ?a p] entries_abs_ex[OF abs, of p] by auto
  have n: "n \<noteq> ?a \<and> (\<exists>ep. entries s n = Some ep)" if "next_e ?e = Some n" for n
    using that ne succ_in_neq[OF d, of ?a] succ_in_mem[of ?xs ?a n] entries_abs_ex[OF abs, of n] by auto
  have b: "bufs s (data ?e) = Some (i_bytes i)" using abs i de by (simp add: cache_abs_def)
  note ex = cache_remove_entry_exec[OF a p n b]
  define s' where "s' = s\<lparr>
      entries := (\<lambda>b. if b = ?a then None
         else map_option ((if succ_in ?xs ?a = Some b then prev_update (\<lambda>_. pred_in ?xs ?a) else id) \<circ>
                          (if pred_in ?xs ?a = Some b then next_e_update (\<lambda>_. succ_in ?xs ?a) else id)) (entries s b)),
      bufs := (bufs s)(i_data i := None),
      cache_head := (if pred_in ?xs ?a = None then succ_in ?xs ?a else cache_head s),
      cache_tail := (if succ_in ?xs ?a = None then pred_in ?xs ?a else cache_tail s),
      cache_bytes := cache_bytes s - int (length (i_bytes i))\<rparr>"
  have s': "cache_remove_entry s (Some ?a) = Some s'" unfolding s'_def using ex[unfolded pe ne de se] by simp
  have xs': "map i_addr (remove1 i is) = remove1 ?a ?xs" using map_remove1_inj[OF d i] .
  have ain: "?a \<in> set ?xs" using i by simp
  have hd: "cache_head s' = hd_opt (remove1 ?a ?xs)"
    using abs unfolding s'_def
    by (simp add: cache_abs_def hd_opt_remove1 pred_in_None_hd[OF d ain])
  have tl: "cache_tail s' = last_opt (remove1 ?a ?xs)"
    using abs unfolding s'_def
    by (simp add: cache_abs_def last_opt_remove1[OF d] succ_in_None_last[OF d ain])
  have ent: "\<forall>b. entries s b = map_option (node_of ?xs) (item_at is b)"
    using abs by (simp add: cache_abs_def)
  have en: "entries s' b = map_option (node_of (remove1 ?a ?xs)) (item_at (remove1 i is) b)" for b
  proof (cases "b = ?a")
    case True
    then show ?thesis unfolding s'_def using item_at_remove1[OF d i, of b] by simp
  next
    case False
    then show ?thesis unfolding s'_def using entries_remove_abs[OF d i ent False] by simp
  qed
  have dat: "distinct (map i_data is)" using abs by (simp add: cache_abs_def)
  have rest: "bufs s' (i_data j) = Some (i_bytes j) \<and> i_addr j < brk s' \<and> i_data j < brk s' \<and>
                   i_bytes j \<noteq> [] \<and> int (length (i_bytes j)) \<le> MAX_OBJECT_SIZE"
    if j: "j \<in> set (remove1 i is)" for j
  proof -
    have ji: "j \<in> set is" using j notin_set_remove1 by fastforce
    have "bufs s (i_data j) = Some (i_bytes j) \<and> i_addr j < brk s \<and> i_data j < brk s \<and>
                   i_bytes j \<noteq> [] \<and> int (length (i_bytes j)) \<le> MAX_OBJECT_SIZE"
      using abs ji unfolding cache_abs_def by blast
    then show ?thesis unfolding s'_def using bufs_remove_abs[OF dat i j] by simp
  qed
  have ts: "cache_bytes s = total_size is" "cache_bytes s \<le> MAX_CACHE_SIZE"
    using abs by (simp_all add: cache_abs_def)
  have sz: "cache_bytes s' = total_size (remove1 i is)" "cache_bytes s' \<le> MAX_CACHE_SIZE"
    unfolding s'_def using ts total_size_remove1[OF i] by simp_all
  have dk: "distinct (map i_key is)" using abs by (simp add: cache_abs_def)
  have dd: "distinct (map i_addr (remove1 i is))" "distinct (map i_data (remove1 i is))" "distinct (map i_key (remove1 i is))"
    using d dat dk by (simp_all add: map_remove1_inj[OF _ i])
  have fr: "\<forall>a. brk s' \<le> a \<longrightarrow> bufs s' a = None"
    using abs unfolding s'_def by (simp add: cache_abs_def)
  have "cache_abs s' (remove1 i is)"
    unfolding cache_abs_def using dd hd tl en rest sz fr unfolding xs' by blast
  moreover have "brk s' = brk s" "bufs s' = (bufs s)(i_data i := None)" unfolding s'_def by simp_all
  ultimately show ?thesis using s' by blast
qed

lemma cache_move_to_front_exec:
  assumes a: "entries s a = Some e"
    and h: "cache_head s = Some h" "h \<noteq> a" "entries s h = Some eh"
    and p: "\<And>p. prev e = Some p \<Longrightarrow> p \<noteq> a \<and> (\<exists>ep. entries s p = Some ep)"
    and n: "\<And>n. next_e e = Some n \<Longrightarrow> n \<noteq> a \<and> (\<exists>en. entries s n = Some en)"
    and t: "cache_tail s = Some a \<Longrightarrow> prev e \<noteq> None" "cache_tail s \<noteq> None"
  shows "cache_move_to_front s (Some a) = Some (s\<lparr>
      entries := (\<lambda>b. if b = a then Some (e\<lparr>prev := None, next_e := Some h\<rparr>)
         else map_option ((if b = h then prev_update (\<lambda>_. Some a) else id) \<circ>
                          (if next_e e = Some b then prev_update (\<lambda>_. prev e) else id) \<circ>
                          (if prev e = Some b then next_e_update (\<lambda>_. next_e e) else id)) (entries s b)),
      cache_head := Some a,
      cache_tail := (if cache_tail s = Some a then prev e else cache_tail s)\<rparr>)"
proof (cases "prev e")
  case None
  note pe = this
  show ?thesis
  proof (cases "next_e e")
    case None
    show ?thesis using a h t pe None
      by (auto simp: cache_move_to_front_def upd_entry_def fun_eq_iff option.map_id Let_def
          intro!: cache_state.equality)
  next
    case (Some nn)
    obtain en where en: "entries s nn = Some en" "nn \<noteq> a" using n[OF Some] by auto
    show ?thesis using a h t pe Some en
      by (auto simp: cache_move_to_front_def upd_entry_def fun_eq_iff option.map_id Let_def
          intro!: cache_state.equality)
  qed
next
  case (Some pp)
  note pe = this
  obtain ep where ep: "entries s pp = Some ep" "pp \<noteq> a" using p[OF Some] by auto
  show ?thesis
  proof (cases "next_e e")
    case None
    show ?thesis using a h t pe None ep
      by (auto simp: cache_move_to_front_def upd_entry_def fun_eq_iff option.map_id Let_def
          intro!: cache_state.equality)
  next
    case (Some nn)
    obtain en where en: "entries s nn = Some en" "nn \<noteq> a" using n[OF Some] by auto
    show ?thesis using a h t pe Some en ep
      by (auto simp: cache_move_to_front_def upd_entry_def fun_eq_iff option.map_id Let_def
          intro!: cache_state.equality)
  qed
qed

lemma pred_in_Cons_hd: "pred_in (a # ys) b = (if hd_opt ys = Some b then Some a else pred_in ys b)"
  by (cases ys) auto

declare pred_in.simps(2) [simp del]

declare succ_in.simps(2) [simp del]

lemma item_at_front: "distinct (map i_addr is) \<Longrightarrow> i \<in> set is \<Longrightarrow> item_at (i # remove1 i is) b = item_at is b"
  using item_at_remove1[of "is" i b] item_at_mem[of "is" i] by (auto simp add: item_at_def)

lemma total_size_front: "i \<in> set is \<Longrightarrow> total_size (i # remove1 i is) = total_size is"
  using total_size_remove1[of i "is"] by (simp add: total_size_def)

lemma entries_front_abs:
  assumes d: "distinct (map i_addr is)" and i: "i \<in> set is"
    and ent: "\<forall>b. ent b = map_option (node_of (map i_addr is)) (item_at is b)"
    and ba: "b \<noteq> i_addr i" and h: "hd_opt (map i_addr is) = Some h" "h \<noteq> i_addr i"
  shows "map_option ((if b = h then prev_update (\<lambda>_. Some (i_addr i)) else id) \<circ>
                     (if succ_in (map i_addr is) (i_addr i) = Some b
                       then prev_update (\<lambda>_. pred_in (map i_addr is) (i_addr i)) else id) \<circ>
                     (if pred_in (map i_addr is) (i_addr i) = Some b
                       then next_e_update (\<lambda>_. succ_in (map i_addr is) (i_addr i)) else id)) (ent b)
         = map_option (node_of (i_addr i # remove1 (i_addr i) (map i_addr is))) (item_at is b)"
proof (cases "item_at is b")
  case None
  then show ?thesis using ent by simp
next
  case (Some j)
  then have jb: "i_addr j = b" using item_at_Some by blast
  have eb: "ent b = Some (node_of (map i_addr is) j)" using ent Some by simp
  have 2: "succ_in (remove1 (i_addr i) (map i_addr is)) b =
       (if succ_in (map i_addr is) b = Some (i_addr i) then succ_in (map i_addr is) (i_addr i) else succ_in (map i_addr is) b)"
    using succ_in_remove1[OF d ba] .
  have 3: "pred_in (remove1 (i_addr i) (map i_addr is)) b =
       (if pred_in (map i_addr is) b = Some (i_addr i) then pred_in (map i_addr is) (i_addr i) else pred_in (map i_addr is) b)"
    using pred_in_remove1[OF d ba] .
  have 4: "(succ_in (map i_addr is) (i_addr i) = Some b) = (pred_in (map i_addr is) b = Some (i_addr i))"
    using succ_pred[OF d] .
  have 5: "(pred_in (map i_addr is) (i_addr i) = Some b) = (succ_in (map i_addr is) b = Some (i_addr i))"
    using succ_pred[OF d] by simp
  have 6: "hd_opt (remove1 (i_addr i) (map i_addr is)) = Some h"
    using h by (simp add: hd_opt_remove1)
  show ?thesis unfolding eb Some 4 5
    using ba by (auto simp add: node_of_def 2 3 6 jb pred_in_Cons_hd succ_in_Cons_hd)
qed

lemma cache_move_to_front_abs:
  assumes abs: "cache_abs s is" and i: "i \<in> set is"
  shows "\<exists>s'. cache_move_to_front s (Some (i_addr i)) = Some s' \<and> cache_abs s' (i # remove1 i is) \<and>
           brk s' = brk s \<and> bufs s' = bufs s"
proof (cases "cache_head s = Some (i_addr i)")
  case True
  have d: "distinct (map i_addr is)" using abs by (simp add: cache_abs_def)
  have "hd_opt (map i_addr is) = Some (i_addr i)" using True abs by (simp add: cache_abs_def)
  then obtain js where "is = i # js" using i d by (cases "is") (auto simp: image_iff)
  then have "i # remove1 i is = is" by simp
  then show ?thesis using True abs by (simp add: cache_move_to_front_def)
next
  case False
  let ?xs = "map i_addr is"
  let ?a = "i_addr i"
  let ?e = "node_of ?xs i"
  have d: "distinct ?xs" using abs by (simp add: cache_abs_def)
  have ain: "?a \<in> set ?xs" using i by simp
  have a: "entries s ?a = Some ?e" using entries_abs[OF abs i] .
  have pe: "prev ?e = pred_in ?xs ?a" and ne: "next_e ?e = succ_in ?xs ?a"
    by (simp_all add: node_of_def)
  have p: "p \<noteq> ?a \<and> (\<exists>ep. entries s p = Some ep)" if "prev ?e = Some p" for p
    using that pe pred_in_neq[OF d, of ?a] pred_in_mem[of ?xs ?a p] entries_abs_ex[OF abs, of p] by auto
  have n: "n \<noteq> ?a \<and> (\<exists>ep. entries s n = Some ep)" if "next_e ?e = Some n" for n
    using that ne succ_in_neq[OF d, of ?a] succ_in_mem[of ?xs ?a n] entries_abs_ex[OF abs, of n] by auto
  have hda: "cache_head s = hd_opt ?xs" and tla: "cache_tail s = last_opt ?xs"
    using abs by (simp_all add: cache_abs_def)
  obtain h where h: "hd_opt ?xs = Some h" "h \<in> set ?xs" using i by (cases "is") auto
  have hs: "cache_head s = Some h" "h \<noteq> ?a" using h False hda by auto
  obtain eh where eh: "entries s h = Some eh" using entries_abs_ex[OF abs h(2)] by blast
  have pn: "pred_in ?xs ?a \<noteq> None" using pred_in_None_hd[OF d ain] h hs by simp
  have t: "cache_tail s = Some ?a \<Longrightarrow> prev ?e \<noteq> None" "cache_tail s \<noteq> None"
    using pn pe tla i by (auto simp: last_opt_def)
  note ex = cache_move_to_front_exec[OF a hs eh p n t]
  define s' where "s' = s\<lparr>
      entries := (\<lambda>b. if b = ?a then Some (?e\<lparr>prev := None, next_e := Some h\<rparr>)
         else map_option ((if b = h then prev_update (\<lambda>_. Some ?a) else id) \<circ>
                          (if succ_in ?xs ?a = Some b then prev_update (\<lambda>_. pred_in ?xs ?a) else id) \<circ>
                          (if pred_in ?xs ?a = Some b then next_e_update (\<lambda>_. succ_in ?xs ?a) else id)) (entries s b)),
      cache_head := Some ?a,
      cache_tail := (if cache_tail s = Some ?a then pred_in ?xs ?a else cache_tail s)\<rparr>"
  have s': "cache_move_to_front s (Some ?a) = Some s'" unfolding s'_def using ex[unfolded pe ne] by simp
  have xs': "map i_addr (i # remove1 i is) = ?a # remove1 ?a ?xs" using map_remove1_inj[OF d i] by simp
  have hr: "hd_opt (remove1 ?a ?xs) = Some h" using h hs by (simp add: hd_opt_remove1)
  then have ne': "remove1 ?a ?xs \<noteq> []" by auto
  have hd: "cache_head s' = hd_opt (?a # remove1 ?a ?xs)"
    unfolding s'_def by simp
  have tl: "cache_tail s' = last_opt (?a # remove1 ?a ?xs)"
    unfolding s'_def using ne' tla by (simp add: last_opt_remove1[OF d])
  have ent: "\<forall>b. entries s b = map_option (node_of ?xs) (item_at is b)"
    using abs by (simp add: cache_abs_def)
  have en: "entries s' b = map_option (node_of (?a # remove1 ?a ?xs)) (item_at (i # remove1 i is) b)" for b
  proof (cases "b = ?a")
    case True
    have "pred_in (remove1 ?a ?xs) ?a = None" using d by (simp add: pred_in_notin)
    then show ?thesis unfolding s'_def item_at_front[OF d i] using True item_at_mem[OF d i] hr hs
      by (simp add: node_of_def pred_in_Cons_hd succ_in_Cons_hd)
  next
    case False
    then show ?thesis unfolding s'_def item_at_front[OF d i]
      using entries_front_abs[OF d i ent False h(1) hs(2)] by simp
  qed
  have rest: "bufs s' (i_data j) = Some (i_bytes j) \<and> i_addr j < brk s' \<and> i_data j < brk s' \<and>
                   i_bytes j \<noteq> [] \<and> int (length (i_bytes j)) \<le> MAX_OBJECT_SIZE"
    if j: "j \<in> set (i # remove1 i is)" for j
  proof -
    have ji: "j \<in> set is" using j i notin_set_remove1 by fastforce
    have "bufs s (i_data j) = Some (i_bytes j) \<and> i_addr j < brk s \<and> i_data j < brk s \<and>
                   i_bytes j \<noteq> [] \<and> int (length (i_bytes j)) \<le> MAX_OBJECT_SIZE"
      using abs ji unfolding cache_abs_def by blast
    then show ?thesis unfolding s'_def by simp
  qed
  have ts: "cache_bytes s = total_size is" "cache_bytes s \<le> MAX_CACHE_SIZE"
    using abs by (simp_all add: cache_abs_def)
  have sz: "cache_bytes s' = total_size (i # remove1 i is)" "cache_bytes s' \<le> MAX_CACHE_SIZE"
    unfolding s'_def using ts total_size_front[OF i] by simp_all
  have dat: "distinct (map i_data is)" and dk: "distinct (map i_key is)" using abs by (simp_all add: cache_abs_def)
  have dd: "distinct (map i_addr (i # remove1 i is))" "distinct (map i_data (i # remove1 i is))"
     "distinct (map i_key (i # remove1 i is))"
    using d dat dk by (simp_all add: map_remove1_inj[OF _ i])
  have fr: "\<forall>a. brk s' \<le> a \<longrightarrow> bufs s' a = None"
    using abs unfolding s'_def by (simp add: cache_abs_def)
  have "cache_abs s' (i # remove1 i is)"
    unfolding cache_abs_def using dd hd tl en rest sz fr unfolding xs' by blast
  moreover have "brk s' = brk s" "bufs s' = bufs s" unfolding s'_def by simp_all
  ultimately show ?thesis using s' by blast
qed

declare abs_evict.simps [simp del]

lemma cache_find_suffix:
  assumes abs: "cache_abs s is"
  shows "is = pre @ suf \<Longrightarrow>
     cache_find s (hd_opt (map i_addr suf)) k = Some (map_option i_addr (find (\<lambda>j. i_key j = k) suf))"
proof (induction suf arbitrary: pre)
  case Nil
  then show ?case by (simp add: cache_find.simps)
next
  case (Cons j suf)
  have d: "distinct (map i_addr is)" using abs by (simp add: cache_abs_def)
  have j: "j \<in> set is" using Cons.prems by simp
  have e: "entries s (i_addr j) = Some (node_of (map i_addr is) j)" using entries_abs[OF abs j] .
  have "distinct (map i_addr pre @ i_addr j # map i_addr suf)" using d Cons.prems by simp
  from succ_in_append[OF this]
  have nx: "succ_in (map i_addr is) (i_addr j) = hd_opt (map i_addr suf)"
    using Cons.prems by (simp add: hd_opt_def)
  have IH: "cache_find s (hd_opt (map i_addr suf)) k = Some (map_option i_addr (find (\<lambda>j. i_key j = k) suf))"
    using Cons.IH[of "pre @ [j]"] Cons.prems by simp
  show ?case
    by (subst cache_find.simps) (simp add: e node_of_def nx IH)
qed

lemma cache_find_abs:
  "cache_abs s is \<Longrightarrow> cache_find s (cache_head s) k = Some (map_option i_addr (find (\<lambda>j. i_key j = k) is))"
  using cache_find_suffix[of s "is" "[]" "is" k] by (simp add: cache_abs_def)

lemma remove1_last: "distinct xs \<Longrightarrow> xs \<noteq> [] \<Longrightarrow> remove1 (last xs) xs = butlast xs"
  by (induction xs) (auto)

lemma cache_evict_until_fit_abs:
  "cache_abs s is \<Longrightarrow> \<exists>s'. cache_evict_until_fit s n = Some s' \<and> cache_abs s' (abs_evict is n) \<and>
      brk s' = brk s \<and> (\<forall>d. d \<notin> set (map i_data is) \<longrightarrow> bufs s' d = bufs s d)"
proof (induction "is" n arbitrary: s rule: abs_evict.induct)
  case (1 "is" n)
  show ?case
  proof (cases "is \<noteq> [] \<and> total_size is + n > MAX_CACHE_SIZE")
    case False
    have "cache_tail s = None \<longleftrightarrow> is = []" "cache_bytes s = total_size is"
      using "1.prems" by (auto simp: cache_abs_def last_opt_def)
    then have "cache_evict_until_fit s n = Some s"
      using False by (subst cache_evict_until_fit.simps) auto
    moreover have "abs_evict is n = is" using False by (subst abs_evict.simps) auto
    ultimately show ?thesis using "1.prems" by simp
  next
    case True
    have ts: "cache_tail s = Some (i_addr (last is))" "cache_bytes s = total_size is"
      using "1.prems" True by (auto simp: cache_abs_def last_opt_def last_map)
    have li: "last is \<in> set is" using True by simp
    have di: "distinct is" using "1.prems" by (auto simp: cache_abs_def distinct_map)
    obtain s1 where s1: "cache_remove_entry s (Some (i_addr (last is))) = Some s1"
      "cache_abs s1 (butlast is)" "brk s1 = brk s" "bufs s1 = (bufs s)(i_data (last is) := None)"
      using cache_remove_entry_abs[OF "1.prems" li] remove1_last[OF di] True by auto
    obtain s' where s': "cache_evict_until_fit s1 n = Some s'" "cache_abs s' (abs_evict (butlast is) n)"
      "brk s' = brk s1" "\<forall>d. d \<notin> set (map i_data (butlast is)) \<longrightarrow> bufs s' d = bufs s1 d"
      using "1.IH"[OF True s1(2)] by blast
    have "cache_evict_until_fit s n = Some s'"
      using True ts s1(1) s'(1) by (subst cache_evict_until_fit.simps) auto
    moreover have "abs_evict is n = abs_evict (butlast is) n" using True by (subst abs_evict.simps) auto
    moreover have "\<forall>d. d \<notin> set (map i_data is) \<longrightarrow> bufs s' d = bufs s d"
    proof (intro allI impI)
      fix d assume d: "d \<notin> set (map i_data is)"
      then have "d \<notin> set (map i_data (butlast is))" using in_set_butlastD by fastforce
      moreover have "d \<noteq> i_data (last is)" using d li by auto
      ultimately show "bufs s' d = bufs s d" using s'(4) s1(4) by simp
    qed
    ultimately show ?thesis using s' s1(3) by simp
  qed
qed

lemma cache_abs_alloc:
  "cache_abs s is \<Longrightarrow> cache_abs (s\<lparr>brk := Suc (brk s), bufs := (bufs s)(brk s \<mapsto> x)\<rparr>) is"
  unfolding cache_abs_def by (auto simp: less_Suc_eq)

lemma cache_get_copy_miss:
  assumes abs: "cache_abs s is" and f: "find (\<lambda>j. i_key j = k) is = None"
  shows "cache_get_copy s k = Some (0, None, 0, s)"
  by (simp add: cache_get_copy_def cache_find_abs[OF abs] f)

lemma cache_get_copy_hit:
  assumes abs: "cache_abs s is" and f: "find (\<lambda>j. i_key j = k) is = Some j"
  shows "\<exists>s'. cache_get_copy s k = Some (1, Some (brk s), int (length (i_bytes j)), s') \<and>
           cache_abs s' (j # remove1 j is) \<and> brk s' = Suc (brk s) \<and>
           bufs s' = (bufs s)(brk s \<mapsto> i_bytes j)"
proof -
  have j: "j \<in> set is" "i_key j = k" using f by (auto simp: find_Some_iff)
  have e: "entries s (i_addr j) = Some (node_of (map i_addr is) j)" using entries_abs[OF abs j(1)] .
  have b: "bufs s (i_data j) = Some (i_bytes j)" using abs j(1) by (simp add: cache_abs_def)
  let ?s2 = "s\<lparr>brk := Suc (brk s), bufs := (bufs s)(brk s \<mapsto> i_bytes j)\<rparr>"
  have abs2: "cache_abs ?s2 is" using cache_abs_alloc[OF abs] .
  obtain s' where s': "cache_move_to_front ?s2 (Some (i_addr j)) = Some s'" "cache_abs s' (j # remove1 j is)"
     "brk s' = brk ?s2" "bufs s' = bufs ?s2"
    using cache_move_to_front_abs[OF abs2 j(1)] by blast
  have "cache_get_copy s k = Some (1, Some (brk s), int (length (i_bytes j)), s')"
    using s'(1) by (simp add: cache_get_copy_def cache_find_abs[OF abs] f e node_of_def malloc_def b memcpy_def)
  then show ?thesis using s' by simp
qed

lemma cache_push_front_abs:
  assumes abs: "cache_abs s is" and k: "k \<notin> set (map i_key is)"
    and p: "p \<noteq> []" "int (length p) \<le> MAX_OBJECT_SIZE" "total_size is + int (length p) \<le> MAX_CACHE_SIZE"
  defines "a \<equiv> brk s"
  defines "i \<equiv> \<lparr>i_addr = a, i_key = k, i_data = Suc a, i_bytes = p\<rparr>"
  defines "s6 \<equiv> s\<lparr>brk := Suc (Suc a), bufs := (bufs s)(Suc a \<mapsto> p),
       entries := (entries s)(a \<mapsto> \<lparr>key = k, data = Suc a, size_e = int (length p), prev = None, next_e = cache_head s\<rparr>)\<rparr>"
  shows "\<exists>s7. (case cache_head s6 of Some h \<Rightarrow> upd_entry s6 h (\<lambda>x. x\<lparr>prev := Some a\<rparr>) | None \<Rightarrow> Some s6) = Some s7 \<and>
     cache_abs ((if cache_tail (s7\<lparr>cache_head := Some a\<rparr>) = None
                 then s7\<lparr>cache_head := Some a, cache_tail := Some a\<rparr> else s7\<lparr>cache_head := Some a\<rparr>)
        \<lparr>cache_bytes := cache_bytes s + int (length p)\<rparr>) (i # is)"
proof -
  let ?xs = "map i_addr is"
  have lt: "\<forall>j\<in>set is. i_addr j < a \<and> i_data j < a" using abs by (simp add: cache_abs_def a_def)
  then have an: "a \<notin> set ?xs" "Suc a \<notin> set (map i_data is)" by auto
  have d: "distinct ?xs" using abs by (simp add: cache_abs_def)
  have ent: "\<forall>b. entries s b = map_option (node_of ?xs) (item_at is b)"
    using abs by (simp add: cache_abs_def)
  have hda: "cache_head s = hd_opt ?xs" and tla: "cache_tail s = last_opt ?xs"
    using abs by (simp_all add: cache_abs_def)
  define s7 where "s7 = s6\<lparr>entries := (\<lambda>b. if hd_opt ?xs = Some b then map_option (prev_update (\<lambda>_. Some a)) (entries s6 b) else entries s6 b)\<rparr>"
  have 7: "(case cache_head s6 of Some h \<Rightarrow> upd_entry s6 h (\<lambda>x. x\<lparr>prev := Some a\<rparr>) | None \<Rightarrow> Some s6) = Some s7"
  proof (cases "is")
    case Nil
    then show ?thesis using hda by (auto simp add: s6_def s7_def fun_eq_iff intro!: cache_state.equality)
  next
    case (Cons j js)
    then have "entries s (i_addr j) = Some (node_of ?xs j)" using entries_abs[OF abs, of j] by simp
    moreover have "i_addr j \<noteq> a" using an Cons by auto
    ultimately show ?thesis using hda Cons
      by (auto simp add: s6_def s7_def upd_entry_def fun_eq_iff intro!: cache_state.equality)
  qed
  let ?s' = "(if cache_tail (s7\<lparr>cache_head := Some a\<rparr>) = None
                 then s7\<lparr>cache_head := Some a, cache_tail := Some a\<rparr> else s7\<lparr>cache_head := Some a\<rparr>)
        \<lparr>cache_bytes := cache_bytes s + int (length p)\<rparr>"
  have hd: "cache_head ?s' = hd_opt (a # ?xs)" by simp
  have tl: "cache_tail ?s' = last_opt (a # ?xs)"
    using tla by (auto simp: s7_def s6_def last_opt_def)
  have ia: "item_at (i # is) b = (if b = a then Some i else item_at is b)" for b
    by (auto simp: item_at_def i_def)
  have en: "entries ?s' b = map_option (node_of (a # ?xs)) (item_at (i # is) b)" for b
  proof (cases "b = a")
    case True
    have "hd_opt ?xs \<noteq> Some a" using an by (cases "is") auto
    moreover have "pred_in ?xs a = None" using an by (simp add: pred_in_notin)
    ultimately show ?thesis using True hda
      by (simp add: s7_def s6_def ia[unfolded i_def] node_of_def i_def pred_in_Cons_hd succ_in_Cons_hd)
  next
    case False
    show ?thesis
    proof (cases "item_at is b")
      case None
      then have "hd_opt ?xs \<noteq> Some b" using item_at_None[of "is" b] by (cases "is") auto
      then show ?thesis using False None ent by (simp add: s7_def s6_def ia)
    next
      case (Some j)
      then have jb: "i_addr j = b" using item_at_Some by blast
      have "pred_in ?xs b = None" if "hd_opt ?xs = Some b"
        using that pred_in_None_hd[OF d, of b] item_at_None[of "is" b] Some by auto
      then show ?thesis using False Some ent jb
        by (auto simp add: s7_def s6_def ia node_of_def pred_in_Cons_hd succ_in_Cons_hd)
    qed
  qed
  have rest: "bufs ?s' (i_data j) = Some (i_bytes j) \<and> i_addr j < brk ?s' \<and> i_data j < brk ?s' \<and>
                   i_bytes j \<noteq> [] \<and> int (length (i_bytes j)) \<le> MAX_OBJECT_SIZE"
    if j: "j \<in> set (i # is)" for j
  proof (cases "j = i")
    case True
    then show ?thesis using p by (simp add: s7_def s6_def i_def)
  next
    case False
    then have ji: "j \<in> set is" using j by simp
    have "bufs s (i_data j) = Some (i_bytes j) \<and> i_addr j < brk s \<and> i_data j < brk s \<and>
                   i_bytes j \<noteq> [] \<and> int (length (i_bytes j)) \<le> MAX_OBJECT_SIZE"
      using abs ji unfolding cache_abs_def by blast
    then show ?thesis using lt ji by (auto simp add: s7_def s6_def a_def)
  qed
  have ts: "cache_bytes s = total_size is"
    using abs by (simp_all add: cache_abs_def)
  have sz: "cache_bytes ?s' = total_size (i # is)" "cache_bytes ?s' \<le> MAX_CACHE_SIZE"
    using ts p(3) by (simp_all add: total_size_def i_def)
  have dat: "distinct (map i_data is)" and dk: "distinct (map i_key is)" using abs by (simp_all add: cache_abs_def)
  have dd: "distinct (map i_addr (i # is))" "distinct (map i_data (i # is))"
     "distinct (map i_key (i # is))"
    using d dat dk an k by (simp_all add: i_def)
  have xs': "map i_addr (i # is) = a # ?xs" by (simp add: i_def)
  have fr: "\<forall>b. brk ?s' \<le> b \<longrightarrow> bufs ?s' b = None"
    using abs by (simp add: cache_abs_def s7_def s6_def a_def)
  have "cache_abs ?s' (i # is)"
    unfolding cache_abs_def using dd hd tl en rest sz fr unfolding xs' by blast
  then show ?thesis using 7 by blast
qed

lemma abs_evict_fits: "abs_evict is n = [] \<or> total_size (abs_evict is n) + n \<le> MAX_CACHE_SIZE"
  by (induction "is" n rule: abs_evict.induct) (subst (1 2) abs_evict.simps, auto)

lemma abs_evict_take: "\<exists>m. abs_evict is n = take m is"
proof (induction "is" n rule: abs_evict.induct)
  case (1 "is" n)
  show ?case
  proof (cases "is \<noteq> [] \<and> total_size is + n > MAX_CACHE_SIZE")
    case True
    then obtain m where "abs_evict (butlast is) n = take m (butlast is)" using 1 by blast
    then have "abs_evict is n = take (min m (length is - 1)) is"
      using True by (subst abs_evict.simps) (simp add: butlast_conv_take)
    then show ?thesis by blast
  next
    case False
    then have "abs_evict is n = take (length is) is" by (subst abs_evict.simps) auto
    then show ?thesis by blast
  qed
qed

lemma abs_evict_subset: "set (abs_evict is n) \<subseteq> set is"
  using abs_evict_take[of "is" n] by (auto dest: in_set_takeD)

lemma abs_remove_key_notin:
  assumes dk: "distinct (map i_key is)"
  shows "k \<notin> set (map i_key (abs_remove_key k is))"
proof (cases "find (\<lambda>j. i_key j = k) is")
  case None
  then have "\<forall>x\<in>set is. i_key x \<noteq> k" by (auto simp: find_None_iff)
  then show ?thesis using None by (auto simp: abs_remove_key_def)
next
  case (Some j)
  then have j: "j \<in> set is" "i_key j = k" by (auto simp: find_Some_iff)
  have di: "distinct is" and inj: "inj_on i_key (set is)" using dk by (auto simp: distinct_map)
  have "i_key x \<noteq> k" if "x \<in> set (remove1 j is)" for x
  proof -
    have "x \<in> set is" "x \<noteq> j" using that di by auto
    then show ?thesis using inj j by (auto simp: inj_on_def)
  qed
  then show ?thesis using Some by (auto simp: abs_remove_key_def)
qed

lemma cache_remove_key_abs:
  assumes abs: "cache_abs s is" and fd: "found = map_option i_addr (find (\<lambda>j. i_key j = k) is)"
  shows "\<exists>s1. (case found of Some cur \<Rightarrow> cache_remove_entry s found | None \<Rightarrow> Some s) = Some s1 \<and>
         cache_abs s1 (abs_remove_key k is) \<and> brk s1 = brk s \<and>
         (\<forall>d. d \<notin> set (map i_data is) \<longrightarrow> bufs s1 d = bufs s d)"
proof (cases "find (\<lambda>j. i_key j = k) is")
  case None
  then show ?thesis using abs fd by (simp add: abs_remove_key_def)
next
  case (Some j)
  then have j: "j \<in> set is" by (auto simp: find_Some_iff)
  obtain s1 where "cache_remove_entry s (Some (i_addr j)) = Some s1" "cache_abs s1 (remove1 j is)"
    "brk s1 = brk s" "bufs s1 = (bufs s)(i_data j := None)"
    using cache_remove_entry_abs[OF abs j] by blast
  then show ?thesis using Some j fd by (auto simp add: abs_remove_key_def)
qed

lemma cache_insert_abs:
  assumes abs: "cache_abs s is" and n: "0 < n" "n \<le> MAX_OBJECT_SIZE" "n \<le> int (length buf)"
  shows "\<exists>s'. cache_insert s k buf n = Some s' \<and>
           cache_abs s' (abs_insert (brk s) k (take (nat n) buf) is) \<and> brk s' = Suc (Suc (brk s)) \<and>
           (\<forall>d. d \<notin> set (map i_data is) \<and> d \<noteq> Suc (brk s) \<longrightarrow> bufs s' d = bufs s d)"
proof -
  let ?p = "take (nat n) buf"
  have lp: "int (length ?p) = n" using n by simp
  define found where "found = map_option i_addr (find (\<lambda>j. i_key j = k) is)"
  have cf: "cache_find s (cache_head s) k = Some found"
    using cache_find_abs[OF abs] by (simp add: found_def)
  obtain s1 where s1: "(case found of Some cur \<Rightarrow> cache_remove_entry s found | None \<Rightarrow> Some s) = Some s1"
         "cache_abs s1 (abs_remove_key k is)" "brk s1 = brk s"
         "\<forall>d. d \<notin> set (map i_data is) \<longrightarrow> bufs s1 d = bufs s d"
    using cache_remove_key_abs[OF abs found_def] by blast
  let ?is2 = "abs_evict (abs_remove_key k is) n"
  obtain s2 where s2: "cache_evict_until_fit s1 n = Some s2" "cache_abs s2 ?is2" "brk s2 = brk s1"
     "\<forall>d. d \<notin> set (map i_data (abs_remove_key k is)) \<longrightarrow> bufs s2 d = bufs s1 d"
    using cache_evict_until_fit_abs[OF s1(2)] by blast
  have dk: "distinct (map i_key is)" using abs by (simp add: cache_abs_def)
  have k: "k \<notin> set (map i_key ?is2)"
    using abs_remove_key_notin[OF dk, of k] abs_evict_subset[of "abs_remove_key k is" n] by auto
  have mo: "MAX_OBJECT_SIZE \<le> MAX_CACHE_SIZE" by (simp add: MAX_OBJECT_SIZE_def MAX_CACHE_SIZE_def)
  have fit: "total_size ?is2 + int (length ?p) \<le> MAX_CACHE_SIZE"
    using abs_evict_fits[of "abs_remove_key k is" n] n mo lp by (auto simp: total_size_def)
  have p: "?p \<noteq> []" "int (length ?p) \<le> MAX_OBJECT_SIZE" using n lp by auto
  note push = cache_push_front_abs[OF s2(2) k p fit]
  then obtain s7 where s7: "(case cache_head s2 of
          Some h \<Rightarrow> upd_entry (s2\<lparr>brk := Suc (Suc (brk s2)), bufs := (bufs s2)(Suc (brk s2) \<mapsto> ?p),
             entries := (entries s2)(brk s2 \<mapsto> \<lparr>key = k, data = Suc (brk s2), size_e = int (length ?p), prev = None, next_e = cache_head s2\<rparr>)\<rparr>)
              h (\<lambda>x. x\<lparr>prev := Some (brk s2)\<rparr>)
        | None \<Rightarrow> Some (s2\<lparr>brk := Suc (Suc (brk s2)), bufs := (bufs s2)(Suc (brk s2) \<mapsto> ?p),
             entries := (entries s2)(brk s2 \<mapsto> \<lparr>key = k, data = Suc (brk s2), size_e = int (length ?p), prev = None, next_e = cache_head s2\<rparr>)\<rparr>)) = Some s7"
     "cache_abs ((if cache_tail (s7\<lparr>cache_head := Some (brk s2)\<rparr>) = None
                 then s7\<lparr>cache_head := Some (brk s2), cache_tail := Some (brk s2)\<rparr> else s7\<lparr>cache_head := Some (brk s2)\<rparr>)
        \<lparr>cache_bytes := cache_bytes s2 + int (length ?p)\<rparr>)
        (\<lparr>i_addr = brk s2, i_key = k, i_data = Suc (brk s2), i_bytes = ?p\<rparr> # ?is2)"
    by auto
  define s' where "s' = ((if cache_tail (s7\<lparr>cache_head := Some (brk s2)\<rparr>) = None
                 then s7\<lparr>cache_head := Some (brk s2), cache_tail := Some (brk s2)\<rparr> else s7\<lparr>cache_head := Some (brk s2)\<rparr>)
        \<lparr>cache_bytes := cache_bytes s2 + int (length ?p)\<rparr>)"
  have s7p: "brk s7 = Suc (Suc (brk s2))" "bufs s7 = (bufs s2)(Suc (brk s2) \<mapsto> ?p)" "cache_bytes s7 = cache_bytes s2"
    using s7(1) by (auto simp: upd_entry_def split: option.splits)
  have nm: "\<not> n > MAX_CACHE_SIZE" "\<not> (n \<le> 0 \<or> n > MAX_OBJECT_SIZE)" using n mo by auto
  have ins: "cache_insert s k buf n = Some s'"
    unfolding cache_insert_def
    using nm s1(1) s2(1) s7(1)[unfolded lp] n
    by (simp add: cf malloc_def memcpy_def s'_def s7p lp Let_def cong: option.case_cong)
  have ab: "cache_abs s' (abs_insert (brk s) k ?p is)"
    using s7(2) s2(3) s1(3) lp by (simp add: s'_def abs_insert_def)
  have br: "brk s' = Suc (Suc (brk s))" using s7p s2(3) s1(3) by (simp add: s'_def)
  have bf: "\<forall>d. d \<notin> set (map i_data is) \<and> d \<noteq> Suc (brk s) \<longrightarrow> bufs s' d = bufs s d"
  proof (intro allI impI)
    fix d assume d: "d \<notin> set (map i_data is) \<and> d \<noteq> Suc (brk s)"
    have "set (abs_remove_key k is) \<subseteq> set is"
      using set_remove1_subset[of _ "is"] by (auto simp: abs_remove_key_def split: option.splits)
    then have "d \<notin> set (map i_data (abs_remove_key k is))" using d by auto
    then have "bufs s2 d = bufs s d" using s2(4) s1(4) d by simp
    moreover have "bufs s' d = bufs s2 d" using d s7p s2(3) s1(3) by (simp add: s'_def)
    ultimately show "bufs s' d = bufs s d" by simp
  qed
  show ?thesis using ins ab br bf by blast
qed

lemma cache_insert_steps:
  assumes abs: "cache_abs s is" and n: "0 < n" "n \<le> MAX_OBJECT_SIZE" "n \<le> int (length buf)"
  shows "\<exists>found s1 s2 s'.
           cache_find s (cache_head s) k = Some found \<and>
           (case found of Some cur \<Rightarrow> cache_remove_entry s found | None \<Rightarrow> Some s) = Some s1 \<and>
           cache_evict_until_fit s1 n = Some s2 \<and>
           cache_bytes s2 + n \<le> MAX_CACHE_SIZE \<and>
           entries s2 (brk s2) = None \<and>
           cache_insert s k buf n = Some s' \<and>
           cache_abs s' (\<lparr>i_addr = brk s2, i_key = k, i_data = Suc (brk s2), i_bytes = take (nat n) buf\<rparr> #
                         abs_evict (abs_remove_key k is) n) \<and>
           cache_bytes s' = cache_bytes s2 + n"
proof -
  let ?p = "take (nat n) buf"
  have lp: "int (length ?p) = n" using n by simp
  define found where "found = map_option i_addr (find (\<lambda>j. i_key j = k) is)"
  have cf: "cache_find s (cache_head s) k = Some found"
    using cache_find_abs[OF abs] by (simp add: found_def)
  obtain s1 where s1: "(case found of Some cur \<Rightarrow> cache_remove_entry s found | None \<Rightarrow> Some s) = Some s1"
         "cache_abs s1 (abs_remove_key k is)" "brk s1 = brk s"
         "\<forall>d. d \<notin> set (map i_data is) \<longrightarrow> bufs s1 d = bufs s d"
    using cache_remove_key_abs[OF abs found_def] by blast
  let ?is2 = "abs_evict (abs_remove_key k is) n"
  obtain s2 where s2: "cache_evict_until_fit s1 n = Some s2" "cache_abs s2 ?is2" "brk s2 = brk s1"
     "\<forall>d. d \<notin> set (map i_data (abs_remove_key k is)) \<longrightarrow> bufs s2 d = bufs s1 d"
    using cache_evict_until_fit_abs[OF s1(2)] by blast
  have dk: "distinct (map i_key is)" using abs by (simp add: cache_abs_def)
  have k: "k \<notin> set (map i_key ?is2)"
    using abs_remove_key_notin[OF dk, of k] abs_evict_subset[of "abs_remove_key k is" n] by auto
  have mo: "MAX_OBJECT_SIZE \<le> MAX_CACHE_SIZE" by (simp add: MAX_OBJECT_SIZE_def MAX_CACHE_SIZE_def)
  have fit: "total_size ?is2 + int (length ?p) \<le> MAX_CACHE_SIZE"
    using abs_evict_fits[of "abs_remove_key k is" n] n mo lp by (auto simp: total_size_def)
  have p: "?p \<noteq> []" "int (length ?p) \<le> MAX_OBJECT_SIZE" using n lp by auto
  note push = cache_push_front_abs[OF s2(2) k p fit]
  then obtain s7 where s7: "(case cache_head s2 of
          Some h \<Rightarrow> upd_entry (s2\<lparr>brk := Suc (Suc (brk s2)), bufs := (bufs s2)(Suc (brk s2) \<mapsto> ?p),
             entries := (entries s2)(brk s2 \<mapsto> \<lparr>key = k, data = Suc (brk s2), size_e = int (length ?p), prev = None, next_e = cache_head s2\<rparr>)\<rparr>)
              h (\<lambda>x. x\<lparr>prev := Some (brk s2)\<rparr>)
        | None \<Rightarrow> Some (s2\<lparr>brk := Suc (Suc (brk s2)), bufs := (bufs s2)(Suc (brk s2) \<mapsto> ?p),
             entries := (entries s2)(brk s2 \<mapsto> \<lparr>key = k, data = Suc (brk s2), size_e = int (length ?p), prev = None, next_e = cache_head s2\<rparr>)\<rparr>)) = Some s7"
     "cache_abs ((if cache_tail (s7\<lparr>cache_head := Some (brk s2)\<rparr>) = None
                 then s7\<lparr>cache_head := Some (brk s2), cache_tail := Some (brk s2)\<rparr> else s7\<lparr>cache_head := Some (brk s2)\<rparr>)
        \<lparr>cache_bytes := cache_bytes s2 + int (length ?p)\<rparr>)
        (\<lparr>i_addr = brk s2, i_key = k, i_data = Suc (brk s2), i_bytes = ?p\<rparr> # ?is2)"
    by auto
  define s' where "s' = ((if cache_tail (s7\<lparr>cache_head := Some (brk s2)\<rparr>) = None
                 then s7\<lparr>cache_head := Some (brk s2), cache_tail := Some (brk s2)\<rparr> else s7\<lparr>cache_head := Some (brk s2)\<rparr>)
        \<lparr>cache_bytes := cache_bytes s2 + int (length ?p)\<rparr>)"
  have s7p: "brk s7 = Suc (Suc (brk s2))" "bufs s7 = (bufs s2)(Suc (brk s2) \<mapsto> ?p)" "cache_bytes s7 = cache_bytes s2"
    using s7(1) by (auto simp: upd_entry_def split: option.splits)
  have nm: "\<not> n > MAX_CACHE_SIZE" "\<not> (n \<le> 0 \<or> n > MAX_OBJECT_SIZE)" using n mo by auto
  have ins: "cache_insert s k buf n = Some s'"
    unfolding cache_insert_def
    using nm s1(1) s2(1) s7(1)[unfolded lp] n
    by (simp add: cf malloc_def memcpy_def s'_def s7p lp Let_def cong: option.case_cong)
  have ab: "cache_abs s' (\<lparr>i_addr = brk s2, i_key = k, i_data = Suc (brk s2), i_bytes = ?p\<rparr> # ?is2)"
    using s7(2) by (simp add: s'_def)
  have cb2: "cache_bytes s2 = total_size ?is2" using s2(2) by (simp add: cache_abs_def)
  have ft: "cache_bytes s2 + n \<le> MAX_CACHE_SIZE" using fit cb2 lp by simp
  have "\<forall>j\<in>set ?is2. i_addr j < brk s2" using s2(2) unfolding cache_abs_def by blast
  then have "brk s2 \<notin> set (map i_addr ?is2)" by auto
  then have fr: "entries s2 (brk s2) = None"
    using s2(2) item_at_None[of ?is2 "brk s2"] by (simp add: cache_abs_def)
  have cb: "cache_bytes s' = cache_bytes s2 + n" using lp by (simp add: s'_def)
  show ?thesis using cf s1(1) s2(1) ft fr ins ab cb by blast
qed

section \<open>Reachable states\<close>

lemma cache_abs_init: "cache_abs cache_init []"
  by (simp add: cache_abs_def cache_init_def item_at_def total_size_def MAX_CACHE_SIZE_def)

lemma cache_walk_suffix:
  assumes abs: "cache_abs s is"
  shows "is = pre @ suf \<Longrightarrow>
     cache_walk s (hd_opt (map i_addr suf)) = Some (map (\<lambda>j. (i_addr j, node_of (map i_addr is) j)) suf)"
proof (induction suf arbitrary: pre)
  case Nil
  then show ?case by (simp add: cache_walk.simps)
next
  case (Cons j suf)
  have d: "distinct (map i_addr is)" using abs by (simp add: cache_abs_def)
  have j: "j \<in> set is" using Cons.prems by simp
  have e: "entries s (i_addr j) = Some (node_of (map i_addr is) j)" using entries_abs[OF abs j] .
  have "distinct (map i_addr pre @ i_addr j # map i_addr suf)" using d Cons.prems by simp
  from succ_in_append[OF this]
  have nx: "succ_in (map i_addr is) (i_addr j) = hd_opt (map i_addr suf)"
    using Cons.prems by (simp add: hd_opt_def)
  have nx': "next_e (node_of (map i_addr is) j) = hd_opt (map i_addr suf)"
    using nx by (simp add: node_of_def)
  have IH: "cache_walk s (hd_opt (map i_addr suf)) = Some (map (\<lambda>j. (i_addr j, node_of (map i_addr is) j)) suf)"
    using Cons.IH[of "pre @ [j]"] Cons.prems by simp
  show ?case
    by (subst cache_walk.simps) (simp add: e nx' IH)
qed

lemma cache_walk_abs:
  "cache_abs s is \<Longrightarrow> cache_walk s (cache_head s) = Some (map (\<lambda>j. (i_addr j, node_of (map i_addr is) j)) is)"
  using cache_walk_suffix[of s "is" "[]" "is"] by (simp add: cache_abs_def)

lemma cache_insert_oob:
  "0 < n \<Longrightarrow> n \<le> MAX_OBJECT_SIZE \<Longrightarrow> \<not> n \<le> int (length buf) \<Longrightarrow> cache_insert s k buf n = None"
  by (auto simp: cache_insert_def memcpy_def malloc_def Let_def MAX_OBJECT_SIZE_def MAX_CACHE_SIZE_def
      split: Option.bind_splits)

lemma cache_insert_noop: "n \<le> 0 \<or> MAX_OBJECT_SIZE < n \<Longrightarrow> cache_insert s k buf n = Some s"
  by (auto simp: cache_insert_def)

lemma run_op_refines:
  assumes abs: "cache_abs s is" and r: "run_op s x = Some s'"
  shows "cache_abs s' (abs_op (brk s) x is) \<and> brk s \<le> brk s' \<and>
         (\<forall>d. d < brk s \<and> d \<notin> set (map i_data is) \<longrightarrow> bufs s' d = bufs s d)"
proof (cases x)
  case (Lookup k)
  show ?thesis
  proof (cases "find (\<lambda>j. i_key j = k) is")
    case None
    then show ?thesis using cache_get_copy_miss[OF abs None] r Lookup abs
      by (auto simp: abs_op_def abs_touch_def)
  next
    case (Some j)
    then show ?thesis using cache_get_copy_hit[OF abs Some] r Lookup
      by (auto simp: abs_op_def abs_touch_def)
  qed
next
  case (Insert k buf n)
  show ?thesis
  proof (cases "n \<le> 0 \<or> MAX_OBJECT_SIZE < n")
    case True
    then show ?thesis using cache_insert_noop[OF True] r Insert abs by (auto simp: abs_op_def)
  next
    case False
    then have n: "0 < n" "n \<le> MAX_OBJECT_SIZE" by auto
    have "n \<le> int (length buf)" using cache_insert_oob[OF n, of buf s k] r Insert by auto
    then show ?thesis using cache_insert_abs[OF abs n, of buf k] r Insert False
      by (auto simp: abs_op_def)
  qed
qed

lemma run_op_abs:
  "cache_abs s is \<Longrightarrow> run_op s x = Some s' \<Longrightarrow> \<exists>is'. cache_abs s' is'"
  using run_op_refines by blast

lemma run_ops_abs:
  "cache_abs s is \<Longrightarrow> run_ops s ops = Some s' \<Longrightarrow> \<exists>is'. cache_abs s' is'"
proof (induction ops arbitrary: s "is")
  case Nil
  then show ?case by auto
next
  case (Cons x ops)
  then obtain s1 where s1: "run_op s x = Some s1" "run_ops s1 ops = Some s'"
    by (auto split: option.splits)
  obtain is1 where "cache_abs s1 is1" using run_op_abs[OF Cons.prems(1) s1(1)] by blast
  then show ?case using Cons.IH s1(2) by blast
qed

lemma reachable_abs: "run_ops cache_init ops = Some s \<Longrightarrow> \<exists>is. cache_abs s is"
  using run_ops_abs[OF cache_abs_init] by blast

lemma run_op_total:
  assumes abs: "cache_abs s is" and ok: "op_ok x"
  shows "\<exists>s'. run_op s x = Some s'"
proof (cases x)
  case (Lookup k)
  show ?thesis
  proof (cases "find (\<lambda>j. i_key j = k) is")
    case None
    then show ?thesis using cache_get_copy_miss[OF abs None] Lookup by auto
  next
    case (Some j)
    then show ?thesis using cache_get_copy_hit[OF abs Some] Lookup by auto
  qed
next
  case (Insert k buf n)
  show ?thesis
  proof (cases "n \<le> 0 \<or> MAX_OBJECT_SIZE < n")
    case True
    then show ?thesis using cache_insert_noop[OF True] Insert by auto
  next
    case False
    then have n: "0 < n" "n \<le> MAX_OBJECT_SIZE" by auto
    have "n \<le> int (length buf)" using ok Insert by simp
    then show ?thesis using cache_insert_abs[OF abs n, of buf k] Insert by auto
  qed
qed

lemma run_ops_total:
  "cache_abs s is \<Longrightarrow> list_all op_ok ops \<Longrightarrow> \<exists>s'. run_ops s ops = Some s'"
proof (induction ops arbitrary: s "is")
  case Nil
  then show ?case by auto
next
  case (Cons x ops)
  obtain s1 where s1: "run_op s x = Some s1" using run_op_total[OF Cons.prems(1)] Cons.prems(2) by auto
  obtain is1 where "cache_abs s1 is1" using run_op_abs[OF Cons.prems(1) s1(1)] by blast
  then show ?case using Cons.IH Cons.prems(2) s1 by auto
qed

lemma walk_sizes:
  "sum_list (map (size_e \<circ> snd) (map (\<lambda>j. (i_addr j, node_of xs j)) is)) = total_size is"
  by (induction "is") (auto simp: total_size_def node_of_def)

lemma abs_allocated: "cache_abs s is \<Longrightarrow> {a. entries s a \<noteq> None} = set (map i_addr is)"
  using item_at_None[of "is"] by (auto simp: cache_abs_def)

section \<open>Claims about the cache\<close>

lemma run_op_brk:
  assumes abs: "cache_abs s is" and r: "run_op s x = Some s'"
  shows "brk s' = abs_brk (brk s) x is"
proof (cases x)
  case (Lookup k)
  show ?thesis
  proof (cases "find (\<lambda>j. i_key j = k) is")
    case None
    then show ?thesis using cache_get_copy_miss[OF abs None] r Lookup by auto
  next
    case (Some j)
    then show ?thesis using cache_get_copy_hit[OF abs Some] r Lookup by auto
  qed
next
  case (Insert k buf n)
  show ?thesis
  proof (cases "n \<le> 0 \<or> MAX_OBJECT_SIZE < n")
    case True
    then show ?thesis using cache_insert_noop[OF True] r Insert by auto
  next
    case False
    then have n: "0 < n" "n \<le> MAX_OBJECT_SIZE" by auto
    have "n \<le> int (length buf)" using cache_insert_oob[OF n, of buf s k] r Insert by auto
    then show ?thesis using cache_insert_abs[OF abs n, of buf k] r Insert False by auto
  qed
qed

lemma run_ops_refines:
  "cache_abs s is \<Longrightarrow> run_ops s ops = Some s' \<Longrightarrow>
     cache_abs s' (snd (abs_run (brk s) is ops)) \<and> brk s' = fst (abs_run (brk s) is ops)"
proof (induction ops arbitrary: s "is")
  case Nil
  then show ?case by simp
next
  case (Cons x ops)
  then obtain s1 where s1: "run_op s x = Some s1" "run_ops s1 ops = Some s'"
    by (auto split: option.splits)
  have 1: "cache_abs s1 (abs_op (brk s) x is)" using run_op_refines[OF Cons.prems(1) s1(1)] by blast
  have 2: "brk s1 = abs_brk (brk s) x is" using run_op_brk[OF Cons.prems(1) s1(1)] .
  show ?case using Cons.IH[OF 1 s1(2)] 2 by simp
qed

lemma fill10_abs:
  "abs_run 0 [] fill10 =
     (21, [item100k 0 ''A'', item100k 18 ''J'', item100k 16 ''I'', item100k 14 ''H'', item100k 12 ''G'',
           item100k 10 ''F'', item100k 8 ''E'', item100k 6 ''D'', item100k 4 ''C'', item100k 2 ''B''])"
  by (simp add: fill10_def abs_op_def abs_insert_def abs_remove_key_def abs_evict.simps abs_touch_def
      total_size_def MAX_OBJECT_SIZE_def MAX_CACHE_SIZE_def payload100k_def item100k_def eval_nat_numeral(1))

lemma fill10_ok: "list_all op_ok fill10"
  by (simp add: fill10_def payload100k_def)

text \<open>
  Claim C1 (cache accounting invariant).  Start from the empty cache and run any
  sequence of lookups and inserts.  If every insert passes a buffer that holds the
  bytes it announces, the run completes.  In every state a run reaches, the nodes on the
  list from \<^verbatim>\<open>cache_head\<close> are exactly the allocated nodes, their sizes add up to
  \<^verbatim>\<open>cache_bytes\<close>, and \<^verbatim>\<open>cache_bytes\<close> lies between 0 and \<^verbatim>\<open>MAX_CACHE_SIZE\<close>.
  Every prefix of a sequence is a sequence, so this holds after each operation.
\<close>

theorem cache_accounting:
  "(list_all op_ok ops \<longrightarrow> run_ops cache_init ops \<noteq> None) \<and>
   (\<forall>s. run_ops cache_init ops = Some s \<longrightarrow>
      (\<exists>es. cache_walk s (cache_head s) = Some es \<and>
           set (map fst es) = {a. entries s a \<noteq> None} \<and>
           sum_list (map (size_e \<circ> snd) es) = cache_bytes s \<and>
           0 \<le> cache_bytes s \<and> cache_bytes s \<le> MAX_CACHE_SIZE))"
proof (intro conjI allI impI)
  assume "list_all op_ok ops"
  then show "run_ops cache_init ops \<noteq> None"
    using run_ops_total[OF cache_abs_init, of ops] by auto
next
  fix s
  assume s: "run_ops cache_init ops = Some s"
  obtain "is" where abs: "cache_abs s is" using reachable_abs[OF s] by blast
  let ?es = "map (\<lambda>j. (i_addr j, node_of (map i_addr is) j)) is"
  have w: "cache_walk s (cache_head s) = Some ?es" using cache_walk_abs[OF abs] .
  have "set (map fst ?es) = {a. entries s a \<noteq> None}" using abs_allocated[OF abs] by (simp add: comp_def)
  moreover have "sum_list (map (size_e \<circ> snd) ?es) = cache_bytes s"
    using walk_sizes[of "map i_addr is" "is"] abs by (simp add: cache_abs_def)
  moreover have "0 \<le> cache_bytes s \<and> cache_bytes s \<le> MAX_CACHE_SIZE"
    using abs total_size_nonneg[of "is"] by (simp add: cache_abs_def)
  ultimately show "\<exists>es. cache_walk s (cache_head s) = Some es \<and>
           set (map fst es) = {a. entries s a \<noteq> None} \<and>
           sum_list (map (size_e \<circ> snd) es) = cache_bytes s \<and>
           0 \<le> cache_bytes s \<and> cache_bytes s \<le> MAX_CACHE_SIZE"
    using w by blast
qed

theorem cache_accounting_witness:
  "list_all op_ok (fill10 @ [Insert ''K'' payload100k 100000, Insert ''A'' ''q'' 1]) \<and>
   (\<exists>s es. run_ops cache_init (fill10 @ [Insert ''K'' payload100k 100000, Insert ''A'' ''q'' 1]) = Some s \<and>
           cache_walk s (cache_head s) = Some es \<and>
           set (map fst es) = {a. entries s a \<noteq> None} \<and>
           sum_list (map (size_e \<circ> snd) es) = cache_bytes s \<and>
           0 \<le> cache_bytes s \<and> cache_bytes s \<le> MAX_CACHE_SIZE)"
proof -
  let ?ops = "fill10 @ [Insert ''K'' payload100k 100000, Insert ''A'' ''q'' 1]"
  have ok: "list_all op_ok ?ops" by (simp add: fill10_def payload100k_def)
  then obtain s where s: "run_ops cache_init ?ops = Some s"
    using cache_accounting[of ?ops] by auto
  then show ?thesis using cache_accounting[of ?ops] ok by auto
qed

lemma cache_contents_abs:
  assumes abs: "cache_abs s is"
  shows "cache_contents s = Some (map item_view is)"
proof -
  have "bufs s (i_data j) = Some (i_bytes j)" if "j \<in> set is" for j
    using abs that by (simp add: cache_abs_def)
  then show ?thesis
    by (simp add: cache_contents_def cache_walk_abs[OF abs] node_of_def item_view_def)
qed

lemma item_view_inj: "distinct (map i_key is) \<Longrightarrow> distinct (map item_view is)"
proof -
  assume "distinct (map i_key is)"
  moreover have "map i_key is = map fst (map item_view is)" by (simp add: item_view_def)
  ultimately show ?thesis using distinct_map[of fst "map item_view is"] by simp
qed

lemma find_key_view:
  assumes dk: "distinct (map i_key is)" and m: "(k, n, p) \<in> set (map item_view is)"
  shows "\<exists>j. find (\<lambda>j. i_key j = k) is = Some j \<and> item_view j = (k, n, p)"
proof -
  obtain j where j: "j \<in> set is" "item_view j = (k, n, p)" using m by auto
  then have kj: "i_key j = k" by (simp add: item_view_def)
  then obtain j' where j': "find (\<lambda>j. i_key j = k) is = Some j'"
    using j(1) by (cases "find (\<lambda>j. i_key j = k) is") (auto simp: find_None_iff)
  then have "j' \<in> set is" "i_key j' = k" by (auto simp: find_Some_iff)
  then have "j' = j" using dk j(1) kj by (auto simp: distinct_map inj_on_def)
  then show ?thesis using j j' by simp
qed

lemma abs_remove_key_filter:
  assumes dk: "distinct (map i_key is)"
  shows "abs_remove_key k is = filter (\<lambda>j. i_key j \<noteq> k) is"
  using dk
proof (induction "is")
  case Nil
  then show ?case by (simp add: abs_remove_key_def)
next
  case (Cons j js)
  show ?case
  proof (cases "i_key j = k")
    case True
    then have "\<forall>x\<in>set js. i_key x \<noteq> k" using Cons.prems by (auto simp: image_iff)
    then have "filter (\<lambda>j. i_key j \<noteq> k) js = js" by (simp add: filter_id_conv)
    then show ?thesis using True by (simp add: abs_remove_key_def)
  next
    case False
    have "j' \<noteq> j" if "find (\<lambda>j. i_key j = k) js = Some j'" for j'
      using that False by (auto simp: find_Some_iff)
    then show ?thesis using False Cons by (auto simp: abs_remove_key_def split: option.splits)
  qed
qed

lemma total_size_view: "total_size is = sum_list (map (fst \<circ> snd) (map item_view is))"
  by (induction "is") (auto simp: total_size_def item_view_def)

lemma total_size_take_mono: "m \<le> m' \<Longrightarrow> total_size (take m is) \<le> total_size (take m' is)"
proof (induction "is" arbitrary: m m')
  case Nil
  then show ?case by simp
next
  case (Cons j js)
  show ?case
  proof (cases m)
    case 0
    then show ?thesis using total_size_nonneg[of "take m' (j # js)"] by (simp add: total_size_def)
  next
    case (Suc m0)
    then obtain m1 where "m' = Suc m1" "m0 \<le> m1" using Cons.prems by (cases m') auto
    then show ?thesis using Suc Cons.IH[of m0 m1] by (simp add: total_size_def)
  qed
qed

lemma abs_evict_char:
  "\<exists>m \<le> length is. abs_evict is n = take m is \<and>
      (m = 0 \<or> total_size (take m is) + n \<le> MAX_CACHE_SIZE) \<and>
      (m < length is \<longrightarrow> total_size (take (Suc m) is) + n > MAX_CACHE_SIZE)"
proof (induction "is" n rule: abs_evict.induct)
  case (1 "is" n)
  show ?case
  proof (cases "is \<noteq> [] \<and> total_size is + n > MAX_CACHE_SIZE")
    case True
    then obtain m where m: "m \<le> length (butlast is)" "abs_evict (butlast is) n = take m (butlast is)"
       "m = 0 \<or> total_size (take m (butlast is)) + n \<le> MAX_CACHE_SIZE"
       "m < length (butlast is) \<longrightarrow> total_size (take (Suc m) (butlast is)) + n > MAX_CACHE_SIZE"
      using 1 by blast
    have ml: "m \<le> length is - 1" using m(1) by simp
    have t1: "take m (butlast is) = take m is" using ml by (simp add: butlast_conv_take min_def)
    have t2: "take (Suc m) (butlast is) = take (Suc m) is" if "m < length is - 1"
      using that by (simp add: butlast_conv_take min_def)
    have 3: "abs_evict is n = take m is" using True m(2) t1 by (subst abs_evict.simps) simp
    have 4: "total_size (take (Suc m) is) + n > MAX_CACHE_SIZE" if "m < length is"
    proof (cases "m < length is - 1")
      case True
      then show ?thesis using m(4) t2 by simp
    next
      case False
      then have "Suc m = length is" using that ml by simp
      then show ?thesis using True by simp
    qed
    have "m \<le> length is" using ml by simp
    then show ?thesis using 3 4 m(3) t1 by auto
  next
    case False
    then have "abs_evict is n = take (length is) is" by (subst abs_evict.simps) auto
    then show ?thesis using False by (intro exI[of _ "length is"]) (auto)
  qed
qed

lemma abs_insert_data: "set (map i_data (abs_insert a k p is)) \<subseteq> insert (Suc a) (set (map i_data is))"
proof -
  have "set (abs_remove_key k is) \<subseteq> set is"
    using set_remove1_subset[of _ "is"] by (auto simp: abs_remove_key_def split: option.splits)
  then have "set (abs_evict (abs_remove_key k is) (int (length p))) \<subseteq> set is"
    using abs_evict_subset[of "abs_remove_key k is" "int (length p)"] by blast
  then show ?thesis by (auto simp: abs_insert_def)
qed

lemma abs_op_data: "set (map i_data (abs_op a x is)) \<subseteq> insert (Suc a) (set (map i_data is))"
proof (cases x)
  case (Lookup k)
  have "set (abs_touch k is) \<subseteq> set is"
    using set_remove1_subset[of _ "is"] by (auto simp: abs_touch_def find_Some_iff split: option.splits)
  then show ?thesis using Lookup by (auto simp: abs_op_def)
next
  case (Insert k buf n)
  then show ?thesis using abs_insert_data[of a k "take (nat n) buf" "is"] by (auto simp: abs_op_def)
qed

lemma run_ops_frame:
  "cache_abs s is \<Longrightarrow> out < brk s \<Longrightarrow> out \<notin> set (map i_data is) \<Longrightarrow> run_ops s ops = Some s' \<Longrightarrow>
     bufs s' out = bufs s out"
proof (induction ops arbitrary: s "is")
  case Nil
  then show ?case by simp
next
  case (Cons x ops)
  then obtain s1 where s1: "run_op s x = Some s1" "run_ops s1 ops = Some s'"
    by (auto split: option.splits)
  note r = run_op_refines[OF Cons.prems(1) s1(1)]
  have 1: "cache_abs s1 (abs_op (brk s) x is)" using r by blast
  have 2: "out < brk s1" using r Cons.prems(2) by auto
  have 3: "out \<notin> set (map i_data (abs_op (brk s) x is))"
    using abs_op_data[of "brk s" x "is"] Cons.prems(2,3) by auto
  have 4: "bufs s1 out = bufs s out" using r Cons.prems(2,3) by blast
  show ?case using Cons.IH[OF 1 2 3 s1(2)] 4 by simp
qed

text \<open>
  Claim C2 (round-trip fidelity).  In any state reached from the empty cache, an insert
  of \<open>n\<close> bytes with \<open>0 < n \<le> MAX_OBJECT_SIZE\<close> followed at once by a lookup of the
  same key is a hit that returns the size \<open>n\<close> and a buffer holding the \<open>n\<close> bytes
  inserted.  The buffer is a copy of its own: its address was not allocated before the
  lookup, no cache node points to it, the node at the head still holds the payload in
  the cache's buffer, and no later sequence of cache operations changes the copy.
\<close>

theorem insert_then_lookup_roundtrip:
  assumes reach: "run_ops cache_init ops = Some s"
    and n: "0 < n" "n \<le> MAX_OBJECT_SIZE" "n \<le> int (length buf)"
  shows "\<exists>s1 s2 out. cache_insert s k buf n = Some s1 \<and>
            cache_get_copy s1 k = Some (1, Some out, n, s2) \<and>
            bufs s2 out = Some (take (nat n) buf) \<and>
            bufs s1 out = None \<and>
            (\<exists>a e. cache_head s2 = Some a \<and> entries s2 a = Some e \<and> key e = k \<and>
                   bufs s2 (data e) = Some (take (nat n) buf)) \<and>
            (\<forall>a e. entries s2 a = Some e \<longrightarrow> data e \<noteq> out) \<and>
            (\<forall>later s3. run_ops s2 later = Some s3 \<longrightarrow> bufs s3 out = Some (take (nat n) buf))"
proof -
  let ?p = "take (nat n) buf"
  obtain "is" where abs: "cache_abs s is" using reachable_abs[OF reach] by blast
  obtain s1 where s1: "cache_insert s k buf n = Some s1" "cache_abs s1 (abs_insert (brk s) k ?p is)"
    using cache_insert_abs[OF abs n] by blast
  define i where "i = \<lparr>i_addr = brk s, i_key = k, i_data = Suc (brk s), i_bytes = ?p\<rparr>"
  define rest where "rest = abs_evict (abs_remove_key k is) (int (length ?p))"
  have ai: "abs_insert (brk s) k ?p is = i # rest" by (simp add: abs_insert_def i_def rest_def)
  have abs1: "cache_abs s1 (i # rest)" using s1(2) ai by simp
  have f: "find (\<lambda>j. i_key j = k) (i # rest) = Some i" by (simp add: i_def)
  have lp: "int (length (i_bytes i)) = n" "i_bytes i = ?p" "i_key i = k" using n by (simp_all add: i_def)
  obtain s2 where s2: "cache_get_copy s1 k = Some (1, Some (brk s1), int (length (i_bytes i)), s2)"
     "cache_abs s2 (i # remove1 i (i # rest))" "brk s2 = Suc (brk s1)" "bufs s2 = (bufs s1)(brk s1 \<mapsto> i_bytes i)"
    using cache_get_copy_hit[OF abs1 f] by blast
  have abs2: "cache_abs s2 (i # rest)" using s2(2) by simp
  let ?out = "brk s1"
  have 1: "cache_get_copy s1 k = Some (1, Some ?out, n, s2)" using s2(1) lp by simp
  have 2: "bufs s2 ?out = Some ?p" using s2(4) lp by simp
  have 3: "bufs s1 ?out = None" using abs1 by (simp add: cache_abs_def)
  have lt: "\<forall>j\<in>set (i # rest). i_data j < ?out" using abs1 unfolding cache_abs_def by blast
  have hd: "cache_head s2 = Some (i_addr i)" using abs2 by (simp add: cache_abs_def)
  have ei: "entries s2 (i_addr i) = Some (node_of (map i_addr (i # rest)) i)"
    using entries_abs[OF abs2, of i] by simp
  have bi: "bufs s2 (i_data i) = Some ?p" using abs2 lp by (simp add: cache_abs_def)
  have 4: "\<exists>a e. cache_head s2 = Some a \<and> entries s2 a = Some e \<and> key e = k \<and> bufs s2 (data e) = Some ?p"
    using hd ei bi lp by (simp add: node_of_def)
  have 5: "data e \<noteq> ?out" if "entries s2 a = Some e" for a e
  proof -
    have "entries s2 a = map_option (node_of (map i_addr (i # rest))) (item_at (i # rest) a)"
      using abs2 unfolding cache_abs_def by blast
    with that have "map_option (node_of (map i_addr (i # rest))) (item_at (i # rest) a) = Some e"
      by simp
    then obtain j where j: "item_at (i # rest) a = Some j" "e = node_of (map i_addr (i # rest)) j"
      by auto
    then have "j \<in> set (i # rest)" using item_at_Some by blast
    then have "i_data j < ?out" using lt by blast
    then show ?thesis using j(2) by (simp add: node_of_def)
  qed
  have o: "?out < brk s2" "?out \<notin> set (map i_data (i # rest))" using s2(3) lt by auto
  have 6: "bufs s3 ?out = Some ?p" if "run_ops s2 later = Some s3" for later s3
    using run_ops_frame[OF abs2 o that] 2 by simp
  show ?thesis using s1(1) 1 2 3 4 5 6 by blast
qed

theorem insert_then_lookup_roundtrip_witness:
  "\<exists>s. run_ops cache_init fill10 = Some s \<and>
     (\<exists>s1 s2 out. cache_insert s ''K'' payload100k 100000 = Some s1 \<and>
            cache_get_copy s1 ''K'' = Some (1, Some out, 100000, s2) \<and>
            bufs s2 out = Some payload100k \<and>
            bufs s1 out = None \<and>
            (\<exists>a e. cache_head s2 = Some a \<and> entries s2 a = Some e \<and> key e = ''K'' \<and>
                   bufs s2 (data e) = Some payload100k) \<and>
            (\<forall>a e. entries s2 a = Some e \<longrightarrow> data e \<noteq> out) \<and>
            (\<forall>later s3. run_ops s2 later = Some s3 \<longrightarrow> bufs s3 out = Some payload100k))"
proof -
  obtain s where s: "run_ops cache_init fill10 = Some s"
    using run_ops_total[OF cache_abs_init fill10_ok] by auto
  have n: "(0::int) < 100000" "100000 \<le> MAX_OBJECT_SIZE" "100000 \<le> int (length payload100k)"
    by (simp_all add: MAX_OBJECT_SIZE_def payload100k_def)
  have p: "take (nat 100000) payload100k = payload100k" by (simp add: payload100k_def)
  show ?thesis
    using insert_then_lookup_roundtrip[OF s n, of "''K''"] s unfolding p by simp
qed

text \<open>
  Claim C10 (admitted inserts always succeed).  In any state reached from the empty
  cache, an insert with \<open>0 < n \<le> MAX_OBJECT_SIZE\<close> does not take the branch
  \<^verbatim>\<open>size > MAX_CACHE_SIZE\<close>.  The scan for the key, the removal of the node found
  and the eviction loop return, in a state \<open>s2\<close> in which the payload fits; the node
  is allocated there, at an address that holds no node in \<open>s2\<close>; and the call
  completes with that node at the head of the list, with the key, the size \<open>n\<close>, no
  predecessor and the payload, and with \<^verbatim>\<open>cache_bytes\<close> grown by \<open>n\<close>.
\<close>

theorem admitted_insert_succeeds:
  assumes reach: "run_ops cache_init ops = Some s"
    and n: "0 < n" "n \<le> MAX_OBJECT_SIZE" "n \<le> int (length buf)"
  shows "\<not> n > MAX_CACHE_SIZE \<and>
         (\<exists>found s1 s2 s' a e.
            cache_find s (cache_head s) k = Some found \<and>
            (case found of Some cur \<Rightarrow> cache_remove_entry s found | None \<Rightarrow> Some s) = Some s1 \<and>
            cache_evict_until_fit s1 n = Some s2 \<and>
            cache_bytes s2 + n \<le> MAX_CACHE_SIZE \<and>
            entries s2 a = None \<and>
            cache_insert s k buf n = Some s' \<and>
            cache_head s' = Some a \<and> entries s' a = Some e \<and>
            key e = k \<and> size_e e = n \<and> prev e = None \<and>
            bufs s' (data e) = Some (take (nat n) buf) \<and>
            cache_bytes s' = cache_bytes s2 + n \<and>
            cache_bytes s' \<le> MAX_CACHE_SIZE)"
proof -
  let ?p = "take (nat n) buf"
  obtain "is" where abs: "cache_abs s is" using reachable_abs[OF reach] by blast
  obtain found s1 s2 s' where st:
      "cache_find s (cache_head s) k = Some found"
      "(case found of Some cur \<Rightarrow> cache_remove_entry s found | None \<Rightarrow> Some s) = Some s1"
      "cache_evict_until_fit s1 n = Some s2"
      "cache_bytes s2 + n \<le> MAX_CACHE_SIZE"
      "entries s2 (brk s2) = None"
      "cache_insert s k buf n = Some s'"
      "cache_abs s' (\<lparr>i_addr = brk s2, i_key = k, i_data = Suc (brk s2), i_bytes = ?p\<rparr> #
                     abs_evict (abs_remove_key k is) n)"
      "cache_bytes s' = cache_bytes s2 + n"
    using cache_insert_steps[OF abs n, of k] by blast
  define i where "i = \<lparr>i_addr = brk s2, i_key = k, i_data = Suc (brk s2), i_bytes = ?p\<rparr>"
  define rest where "rest = abs_evict (abs_remove_key k is) n"
  have abs': "cache_abs s' (i # rest)" using st(7) by (simp add: i_def rest_def)
  have lp: "int (length (i_bytes i)) = n" "i_bytes i = ?p" "i_key i = k" "i_addr i = brk s2"
    using n by (simp_all add: i_def)
  have hd: "cache_head s' = Some (brk s2)" using abs' lp by (simp add: cache_abs_def hd_opt_def)
  have ei: "entries s' (brk s2) = Some (node_of (map i_addr (i # rest)) i)"
    using entries_abs[OF abs', of i] lp by simp
  have bi: "bufs s' (i_data i) = Some ?p" using abs' lp by (simp add: cache_abs_def)
  have pi: "pred_in (map i_addr (i # rest)) (i_addr i) = None"
    using abs' pred_in_hd[of "i_addr i" "map i_addr rest"] by (simp add: cache_abs_def)
  have cb: "cache_bytes s' \<le> MAX_CACHE_SIZE" using abs' by (simp add: cache_abs_def)
  define e where "e = node_of (map i_addr (i # rest)) i"
  have e: "key e = k" "size_e e = n" "prev e = None" "bufs s' (data e) = Some ?p"
    using bi pi lp by (simp_all add: e_def node_of_def)
  have "\<not> n > MAX_CACHE_SIZE" using n by (simp add: MAX_OBJECT_SIZE_def MAX_CACHE_SIZE_def)
  moreover have "\<exists>found s1 s2 s' a e.
            cache_find s (cache_head s) k = Some found \<and>
            (case found of Some cur \<Rightarrow> cache_remove_entry s found | None \<Rightarrow> Some s) = Some s1 \<and>
            cache_evict_until_fit s1 n = Some s2 \<and>
            cache_bytes s2 + n \<le> MAX_CACHE_SIZE \<and>
            entries s2 a = None \<and>
            cache_insert s k buf n = Some s' \<and>
            cache_head s' = Some a \<and> entries s' a = Some e \<and>
            key e = k \<and> size_e e = n \<and> prev e = None \<and>
            bufs s' (data e) = Some ?p \<and>
            cache_bytes s' = cache_bytes s2 + n \<and>
            cache_bytes s' \<le> MAX_CACHE_SIZE"
    using st(1,2,3,4,5,6,8) hd ei[folded e_def] e cb by blast
  ultimately show ?thesis by blast
qed

theorem admitted_insert_succeeds_witness:
  "\<exists>s. run_ops cache_init fill10 = Some s \<and>
     \<not> 100000 > MAX_CACHE_SIZE \<and>
         (\<exists>found s1 s2 s' a e.
            cache_find s (cache_head s) ''K'' = Some found \<and>
            (case found of Some cur \<Rightarrow> cache_remove_entry s found | None \<Rightarrow> Some s) = Some s1 \<and>
            cache_evict_until_fit s1 100000 = Some s2 \<and>
            cache_bytes s2 + 100000 \<le> MAX_CACHE_SIZE \<and>
            entries s2 a = None \<and>
            cache_insert s ''K'' payload100k 100000 = Some s' \<and>
            cache_head s' = Some a \<and> entries s' a = Some e \<and>
            key e = ''K'' \<and> size_e e = 100000 \<and> prev e = None \<and>
            bufs s' (data e) = Some payload100k \<and>
            cache_bytes s' = cache_bytes s2 + 100000 \<and>
            cache_bytes s' \<le> MAX_CACHE_SIZE)"
proof -
  obtain s where s: "run_ops cache_init fill10 = Some s"
    using run_ops_total[OF cache_abs_init fill10_ok] by auto
  have n: "(0::int) < 100000" "100000 \<le> MAX_OBJECT_SIZE" "100000 \<le> int (length payload100k)"
    by (simp_all add: MAX_OBJECT_SIZE_def payload100k_def)
  have p: "take (nat 100000) payload100k = payload100k" by (simp add: payload100k_def)
  show ?thesis
    using admitted_insert_succeeds[OF s n, of "''K''"] s unfolding p by simp
qed

text \<open>
  Claim C5 (admission no-op).  An insert whose size is not positive or exceeds
  \<^verbatim>\<open>MAX_OBJECT_SIZE\<close> returns the memory exactly as it found it: the nodes, the
  buffers, head, tail and \<^verbatim>\<open>cache_bytes\<close> are all unchanged.
\<close>

theorem rejected_insert_is_noop:
  "n \<le> 0 \<or> MAX_OBJECT_SIZE < n \<Longrightarrow> cache_insert s k buf n = Some s"
  by (auto simp: cache_insert_def)

theorem rejected_insert_is_noop_witness:
  "cache_insert cache_init ''k'' ''abc'' 0 = Some cache_init \<and>
   cache_insert cache_init ''k'' (replicate 102401 CHR ''x'') 102401 = Some cache_init"
  using rejected_insert_is_noop[of 0 cache_init "''k''" "''abc''"]
    rejected_insert_is_noop[of 102401 cache_init "''k''" "replicate 102401 CHR ''x''"]
  by (simp add: MAX_OBJECT_SIZE_def)

text \<open>
  Claim C4 (overwrite semantics).  In any state reached from the empty cache, two
  admitted inserts under the same key leave exactly one entry with that key; it is at
  the head and holds the second payload and its size, and \<^verbatim>\<open>cache_bytes\<close> is the sum
  of the sizes of the entries present, so the first payload no longer counts.
\<close>

theorem overwrite_same_key:
  assumes reach: "run_ops cache_init ops = Some s"
    and n1: "0 < n1" "n1 \<le> MAX_OBJECT_SIZE" "n1 \<le> int (length buf1)"
    and n2: "0 < n2" "n2 \<le> MAX_OBJECT_SIZE" "n2 \<le> int (length buf2)"
  shows "\<exists>s1 s2 cs. cache_insert s k buf1 n1 = Some s1 \<and> cache_insert s1 k buf2 n2 = Some s2 \<and>
           cache_contents s2 = Some cs \<and>
           filter (\<lambda>c. fst c = k) cs = [(k, n2, Some (take (nat n2) buf2))] \<and>
           hd cs = (k, n2, Some (take (nat n2) buf2)) \<and>
           cache_bytes s2 = sum_list (map (fst \<circ> snd) cs)"
proof -
  let ?p = "take (nat n2) buf2"
  obtain "is" where abs: "cache_abs s is" using reachable_abs[OF reach] by blast
  obtain s1 is1 where s1: "cache_insert s k buf1 n1 = Some s1" "cache_abs s1 is1"
    using cache_insert_abs[OF abs n1] by blast
  obtain s2 where s2: "cache_insert s1 k buf2 n2 = Some s2" "cache_abs s2 (abs_insert (brk s1) k ?p is1)"
    using cache_insert_abs[OF s1(2) n2] by blast
  define i where "i = \<lparr>i_addr = brk s1, i_key = k, i_data = Suc (brk s1), i_bytes = ?p\<rparr>"
  define rest where "rest = abs_evict (abs_remove_key k is1) (int (length ?p))"
  have ai: "abs_insert (brk s1) k ?p is1 = i # rest" by (simp add: abs_insert_def i_def rest_def)
  have abs2: "cache_abs s2 (i # rest)" using s2(2) ai by simp
  have iv: "item_view i = (k, n2, Some ?p)" using n2 by (simp add: item_view_def i_def)
  have dk: "distinct (map i_key (i # rest))" using abs2 by (simp add: cache_abs_def)
  then have "\<forall>j\<in>set rest. i_key j \<noteq> k" by (auto simp: i_def)
  then have "filter (\<lambda>c. fst c = k) (map item_view rest) = []"
    by (auto simp: filter_empty_conv item_view_def)
  then have 1: "filter (\<lambda>c. fst c = k) (map item_view (i # rest)) = [(k, n2, Some ?p)]"
    using iv by simp
  have 2: "cache_contents s2 = Some (map item_view (i # rest))" using cache_contents_abs[OF abs2] .
  have 3: "cache_bytes s2 = sum_list (map (fst \<circ> snd) (map item_view (i # rest)))"
    using abs2 total_size_view[of "i # rest"] by (simp add: cache_abs_def)
  have 4: "hd (map item_view (i # rest)) = (k, n2, Some ?p)" using iv by simp
  show ?thesis using s1(1) s2(1) 1 2 3 4 by blast
qed

theorem overwrite_same_key_witness:
  "\<exists>s. run_ops cache_init fill10 = Some s \<and>
    (\<exists>s1 s2 cs. cache_insert s ''B'' payload100k 100000 = Some s1 \<and> cache_insert s1 ''B'' ''second'' 6 = Some s2 \<and>
           cache_contents s2 = Some cs \<and>
           filter (\<lambda>c. fst c = ''B'') cs = [(''B'', 6, Some ''second'')] \<and>
           hd cs = (''B'', 6, Some ''second'') \<and>
           cache_bytes s2 = sum_list (map (fst \<circ> snd) cs))"
proof -
  obtain s where s: "run_ops cache_init fill10 = Some s"
    using run_ops_total[OF cache_abs_init fill10_ok] by auto
  have n1: "(0::int) < 100000" "100000 \<le> MAX_OBJECT_SIZE" "100000 \<le> int (length payload100k)"
    by (simp_all add: MAX_OBJECT_SIZE_def payload100k_def)
  have n2: "(0::int) < 6" "6 \<le> MAX_OBJECT_SIZE" "6 \<le> int (length ''second'')"
    by (simp_all add: MAX_OBJECT_SIZE_def)
  show ?thesis
    using overwrite_same_key[OF s n1 n2, of "''B''"] s by simp
qed

lemma abs_evict_one:
  assumes "r \<noteq> []" "total_size r + n > MAX_CACHE_SIZE" "total_size (butlast r) + n \<le> MAX_CACHE_SIZE"
  shows "abs_evict r n = butlast r"
proof -
  have "abs_evict r n = abs_evict (butlast r) n" using assms by (subst abs_evict.simps) simp
  also have "\<dots> = butlast r" using assms by (subst abs_evict.simps) simp
  finally show ?thesis .
qed

lemma view_filter: "map item_view (filter (\<lambda>j. i_key j \<noteq> k) is) = filter (\<lambda>c. fst c \<noteq> k) (map item_view is)"
  by (induction "is") (auto simp: item_view_def)

lemma lookup_hit_contents:
  assumes abs: "cache_abs s is" and m: "(k, n, p) \<in> set (map item_view is)"
  shows "\<exists>out s'. cache_get_copy s k = Some (1, Some out, n, s') \<and>
           cache_contents s' = Some ((k, n, p) # remove1 (k, n, p) (map item_view is))"
proof -
  have dk: "distinct (map i_key is)" using abs by (simp add: cache_abs_def)
  obtain j where j: "find (\<lambda>j. i_key j = k) is = Some j" "item_view j = (k, n, p)"
    using find_key_view[OF dk m] by blast
  then have ji: "j \<in> set is" by (auto simp: find_Some_iff)
  have nj: "int (length (i_bytes j)) = n" using j(2) by (simp add: item_view_def)
  obtain s' where s': "cache_get_copy s k = Some (1, Some (brk s), int (length (i_bytes j)), s')"
     "cache_abs s' (j # remove1 j is)"
    using cache_get_copy_hit[OF abs j(1)] by blast
  have "map item_view (j # remove1 j is) = (k, n, p) # remove1 (k, n, p) (map item_view is)"
    using map_remove1_inj[OF item_view_inj[OF dk] ji] j(2) by simp
  then show ?thesis using s' cache_contents_abs[OF s'(2)] nj by auto
qed

lemma insert_contents:
  fixes k :: string
  assumes abs: "cache_abs s is" and n: "0 < n" "n \<le> MAX_OBJECT_SIZE" "n \<le> int (length buf)"
  defines "rest \<equiv> filter (\<lambda>c. fst c \<noteq> k) (map item_view is)"
  shows "\<exists>s' m. cache_insert s k buf n = Some s' \<and> m \<le> length rest \<and>
           cache_contents s' = Some ((k, n, Some (take (nat n) buf)) # take m rest) \<and>
           sum_list (map (fst \<circ> snd) (take m rest)) + n \<le> MAX_CACHE_SIZE \<and>
           (m < length rest \<longrightarrow> sum_list (map (fst \<circ> snd) (take (Suc m) rest)) + n > MAX_CACHE_SIZE) \<and>
           (rest \<noteq> [] \<and> sum_list (map (fst \<circ> snd) rest) + n > MAX_CACHE_SIZE \<and>
            sum_list (map (fst \<circ> snd) (butlast rest)) + n \<le> MAX_CACHE_SIZE \<longrightarrow> take m rest = butlast rest)"
proof -
  let ?p = "take (nat n) buf"
  have lp: "int (length ?p) = n" using n by simp
  have dk: "distinct (map i_key is)" using abs by (simp add: cache_abs_def)
  define r where "r = filter (\<lambda>j. i_key j \<noteq> k) is"
  have rk: "abs_remove_key k is = r" using abs_remove_key_filter[OF dk] by (simp add: r_def)
  have rv: "map item_view r = rest" by (simp add: r_def rest_def view_filter)
  obtain s' where s': "cache_insert s k buf n = Some s'" "cache_abs s' (abs_insert (brk s) k ?p is)"
    using cache_insert_abs[OF abs n] by blast
  obtain m where m: "m \<le> length r" "abs_evict r n = take m r"
      "m = 0 \<or> total_size (take m r) + n \<le> MAX_CACHE_SIZE"
      "m < length r \<longrightarrow> total_size (take (Suc m) r) + n > MAX_CACHE_SIZE"
    using abs_evict_char[of r n] by blast
  define i where "i = \<lparr>i_addr = brk s, i_key = k, i_data = Suc (brk s), i_bytes = ?p\<rparr>"
  have ai: "abs_insert (brk s) k ?p is = i # take m r" using m(2) rk lp by (simp add: abs_insert_def i_def)
  have iv: "item_view i = (k, n, Some ?p)" using n by (simp add: item_view_def i_def)
  have tv: "map item_view (take m' r) = take m' rest" for m' using rv by (simp add: take_map[symmetric])
  have ts: "total_size (take m' r) = sum_list (map (fst \<circ> snd) (take m' rest))" for m'
    using total_size_view[of "take m' r"] tv by simp
  have 1: "cache_contents s' = Some ((k, n, Some ?p) # take m rest)"
    using cache_contents_abs[of s' "i # take m r"] s'(2) ai iv tv by simp
  have mo: "n \<le> MAX_CACHE_SIZE" using n by (simp add: MAX_OBJECT_SIZE_def MAX_CACHE_SIZE_def)
  have 2: "sum_list (map (fst \<circ> snd) (take m rest)) + n \<le> MAX_CACHE_SIZE"
    using m(3) ts[of m] mo by auto
  have lr: "length r = length rest" using rv by (metis length_map)
  have 3: "m < length rest \<longrightarrow> sum_list (map (fst \<circ> snd) (take (Suc m) rest)) + n > MAX_CACHE_SIZE"
    using m(4) ts[of "Suc m"] lr by simp
  have 4: "take m rest = butlast rest"
    if h: "rest \<noteq> [] \<and> sum_list (map (fst \<circ> snd) rest) + n > MAX_CACHE_SIZE \<and>
         sum_list (map (fst \<circ> snd) (butlast rest)) + n \<le> MAX_CACHE_SIZE"
  proof -
    have a: "r \<noteq> []" using h rv by auto
    have b: "total_size r + n > MAX_CACHE_SIZE" using h total_size_view[of r] rv by simp
    have "map item_view (butlast r) = butlast rest" using rv by (simp add: map_butlast)
    then have c: "total_size (butlast r) + n \<le> MAX_CACHE_SIZE" using h total_size_view[of "butlast r"] by simp
    have "take m r = butlast r" using abs_evict_one[OF a b c] m(2) by simp
    then have "map item_view (take m r) = map item_view (butlast r)" by simp
    then show ?thesis using tv[of m] rv by (simp add: map_butlast)
  qed
  show ?thesis using s'(1) m(1) lr 1 2 3 4 by auto
qed

lemma fill10_contents:
  assumes "run_ops cache_init fill10 = Some s"
  shows "cache_contents s = Some (map (\<lambda>k. (k, 100000, Some payload100k))
            [''A'', ''J'', ''I'', ''H'', ''G'', ''F'', ''E'', ''D'', ''C'', ''B''])"
proof -
  have "cache_abs s (snd (abs_run (brk cache_init) [] fill10))"
    using run_ops_refines[OF cache_abs_init assms] by simp
  then have "cache_abs s (snd (abs_run 0 [] fill10))" by (simp add: cache_init_def)
  from cache_contents_abs[OF this] show ?thesis
    unfolding fill10_abs by (simp add: item_view_def item100k_def payload100k_def)
qed

text \<open>
  Claim C3 (LRU promotion and eviction).  In any state reached from the empty cache,
  with contents \<open>cs\<close> in recency order: a lookup of a key that is present is a hit and
  moves that entry to the head, the others keeping their order; an admitted insert puts
  the new entry at the head, removes the old entry of that key, and of the remaining
  entries keeps the longest prefix that fits with the new payload, that is, it drops
  entries from the tail only, and only as many as needed.  In particular an insert that
  needs exactly one eviction drops the tail, the least recently touched entry.
\<close>

theorem lru_promotion_and_eviction:
  assumes reach: "run_ops cache_init ops = Some s"
  shows "\<exists>cs. cache_contents s = Some cs \<and>
     (\<forall>k n p. (k, n, p) \<in> set cs \<longrightarrow>
        (\<exists>out s'. cache_get_copy s k = Some (1, Some out, n, s') \<and>
            cache_contents s' = Some ((k, n, p) # remove1 (k, n, p) cs))) \<and>
     (\<forall>k buf n. 0 < n \<and> n \<le> MAX_OBJECT_SIZE \<and> n \<le> int (length buf) \<longrightarrow>
        (\<exists>s' m. cache_insert s k buf n = Some s' \<and>
            m \<le> length (filter (\<lambda>c. fst c \<noteq> k) cs) \<and>
            cache_contents s' =
              Some ((k, n, Some (take (nat n) buf)) # take m (filter (\<lambda>c. fst c \<noteq> k) cs)) \<and>
            sum_list (map (fst \<circ> snd) (take m (filter (\<lambda>c. fst c \<noteq> k) cs))) + n \<le> MAX_CACHE_SIZE \<and>
            (m < length (filter (\<lambda>c. fst c \<noteq> k) cs) \<longrightarrow>
               sum_list (map (fst \<circ> snd) (take (Suc m) (filter (\<lambda>c. fst c \<noteq> k) cs))) + n > MAX_CACHE_SIZE) \<and>
            (filter (\<lambda>c. fst c \<noteq> k) cs \<noteq> [] \<and>
             sum_list (map (fst \<circ> snd) (filter (\<lambda>c. fst c \<noteq> k) cs)) + n > MAX_CACHE_SIZE \<and>
             sum_list (map (fst \<circ> snd) (butlast (filter (\<lambda>c. fst c \<noteq> k) cs))) + n \<le> MAX_CACHE_SIZE \<longrightarrow>
               take m (filter (\<lambda>c. fst c \<noteq> k) cs) = butlast (filter (\<lambda>c. fst c \<noteq> k) cs))))"
proof -
  obtain "is" where abs: "cache_abs s is" using reachable_abs[OF reach] by blast
  have c: "cache_contents s = Some (map item_view is)" using cache_contents_abs[OF abs] .
  show ?thesis
    apply (rule exI[of _ "map item_view is"])
    apply (intro conjI allI impI)
      apply (rule c)
     apply (erule lookup_hit_contents[OF abs])
    apply (rule insert_contents[OF abs])
      apply simp_all
    done
qed

theorem lru_promotion_and_eviction_witness:
  "\<exists>s s'. run_ops cache_init fill10 = Some s \<and>
      map_option (map fst) (cache_contents s) =
         Some [''A'', ''J'', ''I'', ''H'', ''G'', ''F'', ''E'', ''D'', ''C'', ''B''] \<and>
      cache_insert s ''K'' payload100k 100000 = Some s' \<and>
      map_option (map fst) (cache_contents s') =
         Some [''K'', ''A'', ''J'', ''I'', ''H'', ''G'', ''F'', ''E'', ''D'', ''C'']"
proof -
  obtain s where s: "run_ops cache_init fill10 = Some s"
    using run_ops_total[OF cache_abs_init fill10_ok] by blast
  let ?cs = "map (\<lambda>k. (k, 100000::int, Some payload100k))
            [''A'', ''J'', ''I'', ''H'', ''G'', ''F'', ''E'', ''D'', ''C'', ''B'']"
  have c: "cache_contents s = Some ?cs" using fill10_contents[OF s] .
  have n: "(0::int) < 100000 \<and> 100000 \<le> MAX_OBJECT_SIZE \<and> 100000 \<le> int (length payload100k)"
    by (simp add: MAX_OBJECT_SIZE_def payload100k_def)
  from lru_promotion_and_eviction[OF s] c
  have "\<forall>k buf n. 0 < n \<and> n \<le> MAX_OBJECT_SIZE \<and> n \<le> int (length buf) \<longrightarrow>
        (\<exists>s' m. cache_insert s k buf n = Some s' \<and>
            m \<le> length (filter (\<lambda>c. fst c \<noteq> k) ?cs) \<and>
            cache_contents s' =
              Some ((k, n, Some (take (nat n) buf)) # take m (filter (\<lambda>c. fst c \<noteq> k) ?cs)) \<and>
            sum_list (map (fst \<circ> snd) (take m (filter (\<lambda>c. fst c \<noteq> k) ?cs))) + n \<le> MAX_CACHE_SIZE \<and>
            (m < length (filter (\<lambda>c. fst c \<noteq> k) ?cs) \<longrightarrow>
               sum_list (map (fst \<circ> snd) (take (Suc m) (filter (\<lambda>c. fst c \<noteq> k) ?cs))) + n > MAX_CACHE_SIZE) \<and>
            (filter (\<lambda>c. fst c \<noteq> k) ?cs \<noteq> [] \<and>
             sum_list (map (fst \<circ> snd) (filter (\<lambda>c. fst c \<noteq> k) ?cs)) + n > MAX_CACHE_SIZE \<and>
             sum_list (map (fst \<circ> snd) (butlast (filter (\<lambda>c. fst c \<noteq> k) ?cs))) + n \<le> MAX_CACHE_SIZE \<longrightarrow>
               take m (filter (\<lambda>c. fst c \<noteq> k) ?cs) = butlast (filter (\<lambda>c. fst c \<noteq> k) ?cs)))"
    by auto
  from this[rule_format, OF n, of "''K''"]
  obtain s' m where s': "cache_insert s ''K'' payload100k 100000 = Some s'"
     "cache_contents s' =
        Some ((''K'', 100000, Some (take (nat 100000) payload100k)) # take m (filter (\<lambda>c. fst c \<noteq> ''K'') ?cs))"
     "filter (\<lambda>c. fst c \<noteq> ''K'') ?cs \<noteq> [] \<and>
             sum_list (map (fst \<circ> snd) (filter (\<lambda>c. fst c \<noteq> ''K'') ?cs)) + 100000 > MAX_CACHE_SIZE \<and>
             sum_list (map (fst \<circ> snd) (butlast (filter (\<lambda>c. fst c \<noteq> ''K'') ?cs))) + 100000 \<le> MAX_CACHE_SIZE \<longrightarrow>
               take m (filter (\<lambda>c. fst c \<noteq> ''K'') ?cs) = butlast (filter (\<lambda>c. fst c \<noteq> ''K'') ?cs)"
    by blast
  have "take m (filter (\<lambda>c. fst c \<noteq> ''K'') ?cs) = butlast (filter (\<lambda>c. fst c \<noteq> ''K'') ?cs)"
    using s'(3) by (simp add: MAX_CACHE_SIZE_def)
  then have "map_option (map fst) (cache_contents s') =
         Some [''K'', ''A'', ''J'', ''I'', ''H'', ''G'', ''F'', ''E'', ''D'', ''C'']"
    unfolding s'(2) by simp
  then show ?thesis using s c s'(1) by (intro exI[of _ s] exI[of _ s']) simp
qed

section \<open>The resolver, the header filter and the handler\<close>

text \<open>
  Claim C6 (URI parsing table).  With buffers of at least 32 bytes, the four targets
  of the table resolve as the table says: an absolute target with scheme and no Host
  header; a target with an explicit port, whatever the Host header; an origin-relative
  target with the Host header \<^verbatim>\<open>example.com:8080\<close>, given either as the bare value or
  as \<^verbatim>\<open>read_request_headers\<close> captures it, with the leading blank and the line end;
  and a bare host name, whatever the Host header.
\<close>

theorem uri_parsing_table:
  assumes "32 \<le> MAXLINE"
  shows "resolve_target MAXLINE ''http://example.com/index.html'' '''' =
           Some (''example.com'', ''80'', ''/index.html'') \<and>
         (\<forall>host_hdr. resolve_target MAXLINE ''example.com:8080/a/b'' host_hdr =
           Some (''example.com'', ''8080'', ''/a/b'')) \<and>
         resolve_target MAXLINE ''/relative'' ''example.com:8080'' =
           Some (''example.com'', ''8080'', ''/relative'') \<and>
         resolve_target MAXLINE ''/relative'' ('' example.com:8080'' @ CRLF) =
           Some (''example.com'', ''8080'', ''/relative'') \<and>
         (\<forall>host_hdr. resolve_target MAXLINE ''example.com'' host_hdr =
           Some (''example.com'', ''80'', ''/''))"
  using assms
  by (simp add: resolve_target_def parse_uri_def normalize_host_from_header_def
      starts_with_icase_def tolower_def isspace_def eval_nat_numeral Let_def)

theorem uri_parsing_table_witness:
  "(32::nat) \<le> 8192 \<and>
   resolve_target 8192 ''http://example.com/index.html'' '''' =
           Some (''example.com'', ''80'', ''/index.html'') \<and>
   resolve_target 8192 ''example.com:8080/a/b'' ''other.org'' =
           Some (''example.com'', ''8080'', ''/a/b'') \<and>
   resolve_target 8192 ''/relative'' ''example.com:8080'' =
           Some (''example.com'', ''8080'', ''/relative'') \<and>
   resolve_target 8192 ''/relative'' ('' example.com:8080'' @ CRLF) =
           Some (''example.com'', ''8080'', ''/relative'') \<and>
   resolve_target 8192 ''example.com'' '''' =
           Some (''example.com'', ''80'', ''/'')"
  using uri_parsing_table[of 8192] by simp

lemma strchr_append: "c \<notin> set h \<Longrightarrow> strchr (h @ c # t) c = Some (length h)"
  by (induction h) auto

lemma strchr_None: "c \<notin> set s \<Longrightarrow> strchr s c = None"
  by (induction s) auto

lemma strncasecmp_eq_prefix:
  "length sch = n \<Longrightarrow> length pre = n \<Longrightarrow> strncasecmp_eq (sch @ t) pre n = strncasecmp_eq sch pre n"
proof (induction n arbitrary: sch pre)
  case 0
  then show ?case by simp
next
  case (Suc n)
  then obtain c s' d p' where "sch = c # s'" "pre = d # p'" "length s' = n" "length p' = n"
    by (cases sch; cases pre) auto
  then show ?case using Suc.IH by simp
qed

lemma starts_with_icase_scheme:
  "length sch = length pre \<Longrightarrow> starts_with_icase (sch @ t) pre = starts_with_icase sch pre"
  unfolding starts_with_icase_def by (rule strncasecmp_eq_prefix) simp_all

lemma parse_uri_body:
  "parse_uri MAXLINE uri =
     parse_uri_body MAXLINE (if starts_with_icase uri ''http://'' then drop 7 uri else uri)"
  by (simp only: parse_uri_def parse_uri_body_def Let_def)

lemma parse_uri_body_host_port:
  assumes t: "t = h @ '':'' @ po @ rest"
    and h: "CHR ''/'' \<notin> set h" "CHR '':'' \<notin> set h" and po: "CHR ''/'' \<notin> set po"
    and rest: "rest = [] \<or> hd rest = CHR ''/''"
    and len: "length t < MAXLINE"
  shows "parse_uri_body MAXLINE t = (h, po, if rest = [] then ''/'' else rest)"
proof -
  let ?hp = "h @ CHR '':'' # po"
  let ?path = "if rest = [] then ''/'' else rest"
  have A: "(take 1 t = ''/'') = False" using t h by (cases h) auto
  have hpc: "strchr ?hp CHR '':'' = Some (length h)" using strchr_append[OF h(2)] .
  have lh: "length h \<le> MAXLINE - 1" and lhp: "length ?hp \<le> MAXLINE - 1"
    and lpo: "length po \<le> MAXLINE - 1" and lr: "length rest \<le> MAXLINE - 1"
    and lt: "length t \<le> MAXLINE - 1"
    using len t by auto
  have B: "(case strchr t CHR ''/'' of
              Some slash \<Rightarrow> (take (min slash (MAXLINE - 1)) t, take (MAXLINE - 1) (drop slash t))
            | None \<Rightarrow> (take (MAXLINE - 1) t, ''/'')) = (?hp, ?path)"
  proof (cases "rest = []")
    case True
    have "CHR ''/'' \<notin> set t" using t h po True by auto
    then have s: "strchr t CHR ''/'' = None" by (rule strchr_None)
    have tt: "t = ?hp" using t True by simp
    show ?thesis unfolding s using True lt by (simp add: tt)
  next
    case False
    then obtain r where r: "rest = CHR ''/'' # r" using rest by (cases rest) auto
    have "CHR ''/'' \<notin> set ?hp" using h po by auto
    then have s: "strchr (?hp @ CHR ''/'' # r) CHR ''/'' = Some (length ?hp)" by (rule strchr_append)
    have tt: "t = ?hp @ rest" using t by simp
    have s': "strchr t CHR ''/'' = Some (length ?hp)" using s tt r by simp
    have tk: "take (length ?hp) t = ?hp" "drop (length ?hp) t = rest" unfolding tt by simp_all
    have m: "min (length ?hp) (MAXLINE - 1) = length ?hp" using lhp by simp
    show ?thesis unfolding s' option.case m tk using False lr by simp
  qed
  have C: "(case strchr ?hp CHR '':'' of
              Some colon \<Rightarrow>
                (take (min colon (MAXLINE - 1)) ?hp,
                 take (MAXLINE - 1) (drop (Suc colon) ?hp), ?path)
            | None \<Rightarrow> (take (MAXLINE - 1) ?hp, ''80'', ?path)) = (h, po, ?path)"
  proof -
    have m: "min (length h) (MAXLINE - 1) = length h" using lh by simp
    have d: "drop (Suc (length h)) ?hp = po" by simp
    have k: "take (length h) ?hp = h" by simp
    show ?thesis unfolding hpc option.case m d k using lpo by simp
  qed
  show ?thesis unfolding parse_uri_body_def A B using C by (simp only: if_False Let_def prod.case)
qed

text \<open>
  Claim C7, amended (first-colon split).  For a target \<open>host:port\<close> followed by
  nothing or by a path, with or without the scheme, and short enough for the buffers,
  \<^verbatim>\<open>parse_uri\<close> splits at the FIRST colon: the host name is what precedes the first
  colon and the port is everything between it and the path, further colons included.
  The claim as stated, a split at the last colon, fails for a segment with two colons:
  for \<^verbatim>\<open>[::1]:8080\<close> the code gives the host name \<^verbatim>\<open>[\<close> and the port
  \<^verbatim>\<open>:1]:8080\<close>.
\<close>

theorem first_colon_split:
  assumes uri: "uri = sch @ t"
    and sch: "sch = [] \<and> \<not> starts_with_icase t ''http://'' \<or>
              length sch = 7 \<and> starts_with_icase sch ''http://''"
    and t: "t = h @ '':'' @ po @ rest"
    and h: "CHR ''/'' \<notin> set h" "CHR '':'' \<notin> set h" and po: "CHR ''/'' \<notin> set po"
    and rest: "rest = [] \<or> hd rest = CHR ''/''"
    and len: "length uri < MAXLINE"
  shows "parse_uri MAXLINE uri = (h, po, if rest = [] then ''/'' else rest)"
proof -
  have l: "length t < MAXLINE" using uri len by auto
  have "(if starts_with_icase uri ''http://'' then drop 7 uri else uri) = t"
    using sch
  proof
    assume "sch = [] \<and> \<not> starts_with_icase t ''http://''"
    then show ?thesis using uri by simp
  next
    assume a: "length sch = 7 \<and> starts_with_icase sch ''http://''"
    then have "length sch = length ''http://''" by simp
    then have "starts_with_icase (sch @ t) ''http://''"
      using a starts_with_icase_scheme[of sch "''http://''" t] by blast
    then show ?thesis using uri a by simp
  qed
  then show ?thesis
    using parse_uri_body[of MAXLINE uri] parse_uri_body_host_port[OF t h po rest l] by simp
qed

theorem first_colon_split_witness:
  "parse_uri 8192 ''http://[::1]:8080/x'' = (''['', '':1]:8080'', ''/x'')"
proof -
  have 1: "''http://[::1]:8080/x'' = ''http://'' @ ''[::1]:8080/x''" by simp
  have 2: "''http://'' = [] \<and> \<not> starts_with_icase ''[::1]:8080/x'' ''http://'' \<or>
              length ''http://'' = 7 \<and> starts_with_icase ''http://'' ''http://''"
    by (simp add: starts_with_icase_def)
  have 3: "''[::1]:8080/x'' = ''['' @ '':'' @ '':1]:8080'' @ ''/x''" by simp
  have 4: "CHR ''/'' \<notin> set ''[''" "CHR '':'' \<notin> set ''[''" "CHR ''/'' \<notin> set '':1]:8080''" by simp_all
  have 5: "''/x'' = [] \<or> hd ''/x'' = CHR ''/''" by simp
  have 6: "length ''http://[::1]:8080/x'' < 8192" by simp
  show ?thesis using first_colon_split[OF 1 2 3 4 5 6] by simp
qed

theorem last_colon_split_counterexample:
  "parse_uri 8192 ''http://[::1]:8080/x'' = (''['', '':1]:8080'', ''/x'') \<and>
   spec_last_colon_split ''[::1]:8080'' = (''[::1]'', ''8080'') \<and>
   (fst (parse_uri 8192 ''http://[::1]:8080/x''), fst (snd (parse_uri 8192 ''http://[::1]:8080/x'')))
      \<noteq> spec_last_colon_split ''[::1]:8080''"
  by (simp add: parse_uri_def spec_last_colon_split_def starts_with_icase_def tolower_def
      eval_nat_numeral Let_def)








lemma sscanf3_None: "length (tokens buf) < 3 \<Longrightarrow> sscanf3 buf = None"
  by (cases "tokens buf" rule: remdups_adj.cases) (auto simp: sscanf3_def)

lemma sscanf3_method: "sscanf3 buf = Some (m, u, v) \<Longrightarrow> \<exists>r. tokens buf = m # r"
  by (auto simp: sscanf3_def split: list.splits)

lemma tokens_post: "tokens (''POST / HTTP/1.0'' @ CRLF) = [''POST'', ''/'', ''HTTP/1.0'']"
  by (simp add: tokens.simps[of "''POST / HTTP/1.0'' @ CRLF"] tokens.simps[of "'' / HTTP/1.0'' @ CRLF"]
      tokens.simps[of "'' HTTP/1.0'' @ CRLF"] tokens.simps[of "CRLF"] isspace_def Let_def)

text \<open>
  Claim C9 (silent rejection).  When the request line has fewer than three
  white-space separated tokens, or its first token is not GET up to case, or no line
  can be read at all, the handler returns with the world as it was: no byte written
  to the client, no upstream connection opened, the cache untouched.
\<close>

theorem silent_rejection:
  assumes "length (tokens buf) < 3 \<or> (\<exists>m r. tokens buf = m # r \<and> \<not> strcasecmp_eq m ''GET'')"
  shows "forward_request MAXLINE net w (buf # rio) = Some w \<and> forward_request MAXLINE net w [] = Some w"
proof -
  have 2: "forward_request MAXLINE net w [] = Some w" by (simp add: forward_request_def)
  have 1: "forward_request MAXLINE net w (buf # rio) = Some w"
  proof (cases "sscanf3 buf")
    case None
    then show ?thesis by (simp add: forward_request_def)
  next
    case (Some muv)
    obtain m u v where muv: "muv = (m, u, v)" by (cases muv) auto
    obtain r where r: "tokens buf = m # r" using sscanf3_method Some muv by blast
    have "\<not> length (tokens buf) < 3" using Some sscanf3_None by fastforce
    then have "\<not> strcasecmp_eq m ''GET''" using assms r by auto
    then show ?thesis using Some muv by (simp add: forward_request_def)
  qed
  show ?thesis using 1 2 by simp
qed

theorem silent_rejection_witness:
  "forward_request 8192 (\<lambda>h p. None) world_init [''POST / HTTP/1.0'' @ CRLF, CRLF] = Some world_init \<and>
   forward_request 8192 (\<lambda>h p. None) world_init [''GET /'' @ CRLF, CRLF] = Some world_init"
proof -
  have "\<not> strcasecmp_eq ''POST'' ''GET''" by (simp add: strcasecmp_eq_def tolower_def char_of_def bit_iff_odd)
  then have 1: "length (tokens (''POST / HTTP/1.0'' @ CRLF)) < 3 \<or>
     (\<exists>m r. tokens (''POST / HTTP/1.0'' @ CRLF) = m # r \<and> \<not> strcasecmp_eq m ''GET'')"
    using tokens_post by simp
  have "tokens (''GET /'' @ CRLF) = [''GET'', ''/'']"
    by (simp add: tokens.simps[of "''GET /'' @ CRLF"] tokens.simps[of "'' /'' @ CRLF"]
      tokens.simps[of "CRLF"] isspace_def Let_def)
  then have 2: "length (tokens (''GET /'' @ CRLF)) < 3 \<or>
     (\<exists>m r. tokens (''GET /'' @ CRLF) = m # r \<and> \<not> strcasecmp_eq m ''GET'')"
    by simp
  show ?thesis using silent_rejection[OF 1, of 8192 "\<lambda>h p. None" world_init "[CRLF]"] silent_rejection[OF 2, of 8192 "\<lambda>h p. None" world_init "[CRLF]"]
    by simp
qed


end
